theory Spec2Isabelle
  imports Main "HOL-Library.Word"
begin

unbundle bit_operations_syntax

section \<open>Data model of \<open>src/main.c\<close>\<close>

text \<open>
  The program is compiled for x86-64 (LP64): \<open>size_t\<close>, \<open>uintptr_t\<close> and pointers are
  64-bit words, \<open>int\<close> is a 32-bit word. Arithmetic on them wraps around, as word
  arithmetic does.
\<close>

type_synonym addr = "64 word"

text \<open>
  \<open>struct block_meta\<close> (lines 14-20). The fields \<open>size\<close>, \<open>next\<close> and \<open>free\<close> carry
  the suffix \<open>_f\<close>, because the plain names are taken (\<open>size\<close> by HOL, \<open>next\<close> by Isar,
  \<open>free\<close> by the function \<open>free\<close> below).
\<close>

record block_meta =
  size_f :: "64 word"
  next_f :: addr
  free_f :: "32 word"
  marked :: "32 word"
  magic :: "32 word"

text \<open>
  \<open>META_SIZE\<close> is \<open>sizeof(struct block_meta)\<close> (line 10): 8 + 8 + 4 + 4 + 4 = 28 bytes of
  fields, padded to the 8-byte alignment of the struct, 32 bytes on LP64.
  \<open>MIN_SIZE\<close> is line 11.
\<close>

definition META_SIZE :: "64 word" where
  "META_SIZE = 32"

definition MIN_SIZE :: "64 word" where
  "MIN_SIZE = 8"

text \<open>
  The heap. Block headers live in a store of their own, keyed by the address of the
  header; an address that holds no header is not a block, and dereferencing it as one is
  the error \<open>Fault\<close>. Payload bytes are in \<open>mem\<close>. \<open>global_base\<close> is the global of line 23
  (0 is \<open>NULL\<close>). \<open>brk\<close> is the program break, what \<open>sbrk(0)\<close> returns.
\<close>

record heap =
  global_base :: addr
  brk :: addr
  brk_limit :: addr
  hdr :: "addr \<rightharpoonup> block_meta"
  mem :: "addr \<Rightarrow> 8 word"

text \<open>
  How a call can end without a value: \<open>Abort\<close> is a failed \<open>assert\<close>, \<open>Fault\<close> the
  dereference of an address that holds no header. A call that does not end at all (a
  traversal of a cyclic list) is the value \<open>None\<close> of the outer option.
\<close>

datatype error = Abort | Fault

type_synonym 'a result = "(error + 'a) option"

definition bind_r :: "'a result \<Rightarrow> ('a \<Rightarrow> 'b result) \<Rightarrow> 'b result" where
  "bind_r m f = Option.bind m (\<lambda>r. case r of Inl e \<Rightarrow> Some (Inl e) | Inr x \<Rightarrow> f x)"

text \<open>Reading and writing one field of the header at an address.\<close>

definition set_hdr :: "heap \<Rightarrow> addr \<Rightarrow> block_meta \<Rightarrow> heap" where
  "set_hdr s a b = s\<lparr>hdr := (hdr s)(a \<mapsto> b)\<rparr>"

section \<open>The memory source\<close>

text \<open>
  Modelled from the spec: \<open>sbrk\<close> is the C library's, not this repository's. The spec's
  Memory Source "extends the process's contiguous address range by N bytes and returns the
  previous end address, or signals resource exhaustion". Here the range can grow up to
  \<open>brk_limit\<close>; the failure value is \<open>(void *)-1\<close>; \<open>sbrk(0)\<close> reads the break.
\<close>

definition sbrk :: "heap \<Rightarrow> 64 word \<Rightarrow> addr \<times> heap" where
  "sbrk s n =
     (if n = 0 \<or> unat (brk s) + unat n \<le> unat (brk_limit s)
      then (brk s, s\<lparr>brk := brk s + n\<rparr>)
      else (- 1, s))"

section \<open>The allocator\<close>

text \<open>
  \<open>find_free_block\<close> (lines 129-136). \<open>last_b\<close> is the source's \<open>last\<close>, which the
  caller passes by reference; the function returns its final value together with
  \<open>current\<close>.
\<close>

partial_function (option) find_free_block ::
  "heap \<Rightarrow> addr \<Rightarrow> addr \<Rightarrow> 64 word \<Rightarrow> (addr \<times> addr) result" where
  "find_free_block s last_b current sz =
     (if current = 0 then Some (Inr (last_b, current))
      else case hdr s current of
        None \<Rightarrow> Some (Inl Fault)
      | Some b \<Rightarrow>
          if free_f b \<noteq> 0 \<and> sz \<le> size_f b then Some (Inr (last_b, current))
          else find_free_block s current (next_f b) sz)"

declare find_free_block.simps [code]

text \<open>
  \<open>request_space\<close> (lines 138-158). The \<open>assert\<close> of line 142 comes before the test of
  line 143.
\<close>

definition request_space :: "heap \<Rightarrow> addr \<Rightarrow> 64 word \<Rightarrow> (addr \<times> heap) result" where
  "request_space s last_b sz =
     (let (block, s0) = sbrk s 0;
          (request, s1) = sbrk s0 (sz + META_SIZE)
      in if block \<noteq> request then Some (Inl Abort)
         else if request = - 1 then Some (Inr (0, s1))
         else bind_r
           (if last_b \<noteq> 0 then
              (case hdr s1 last_b of
                 None \<Rightarrow> Some (Inl Fault)
               | Some l \<Rightarrow> Some (Inr (set_hdr s1 last_b (l\<lparr>next_f := block\<rparr>))))
            else Some (Inr s1))
           (\<lambda>s2. Some (Inr (block,
              set_hdr s2 block
                \<lparr>size_f = sz, next_f = 0, free_f = 0, marked = 1, magic = 0x12345678\<rparr>))))"

text \<open>
  The reuse branch of \<open>malloc\<close> (lines 183-204): split when the block is large enough,
  then hand the block out. The writes are in the order of the source.
\<close>

definition reuse_block :: "heap \<Rightarrow> addr \<Rightarrow> 64 word \<Rightarrow> heap result" where
  "reuse_block s block sz =
     (case hdr s block of
        None \<Rightarrow> Some (Inl Fault)
      | Some b \<Rightarrow>
          let s1 =
            (if sz + META_SIZE + MIN_SIZE \<le> size_f b then
               let remaining = size_f b - sz - META_SIZE;
                   new_block = block + META_SIZE + sz;
                   s' = set_hdr s block (b\<lparr>size_f := sz\<rparr>);
                   s'' = set_hdr s' new_block
                     \<lparr>size_f = remaining, next_f = next_f b, free_f = 1, marked = 0,
                      magic = 0x22222222\<rparr>
               in (case hdr s'' block of
                     None \<Rightarrow> s''
                   | Some b' \<Rightarrow> set_hdr s'' block (b'\<lparr>next_f := new_block\<rparr>))
             else s)
          in (case hdr s1 block of
                None \<Rightarrow> Some (Inl Fault)
              | Some b1 \<Rightarrow>
                  Some (Inr (set_hdr s1 block
                    (b1\<lparr>free_f := 0, marked := 1, magic := 0x77777777\<rparr>)))))"

text \<open>\<open>malloc\<close> (lines 160-208). The result is the payload pointer, 0 for \<open>NULL\<close>.\<close>

definition malloc :: "heap \<Rightarrow> 64 word \<Rightarrow> (addr \<times> heap) result" where
  "malloc s size0 =
     (if size0 = 0 then Some (Inr (0, s))
      else
        let sz = (size0 + 7) AND NOT 7 in
        if global_base s = 0 then
          bind_r (request_space s 0 sz) (\<lambda>(block, s1).
            if block = 0 then Some (Inr (0, s1))
            else Some (Inr (block + META_SIZE, s1\<lparr>global_base := block\<rparr>)))
        else
          bind_r (find_free_block s 0 (global_base s) sz) (\<lambda>(last_b, block).
            if block = 0 then
              bind_r (request_space s last_b sz) (\<lambda>(block, s1).
                if block = 0 then Some (Inr (0, s1))
                else Some (Inr (block + META_SIZE, s1)))
            else
              bind_r (reuse_block s block sz) (\<lambda>s1.
                Some (Inr (block + META_SIZE, s1)))))"

text \<open>
  \<open>merge_free_blocks\<close> (lines 210-227). When the pair is merged, \<open>current\<close> stays where
  it is.
\<close>

partial_function (option) merge_free_blocks :: "heap \<Rightarrow> addr \<Rightarrow> heap result" where
  "merge_free_blocks s current =
     (if current = 0 then Some (Inr s)
      else case hdr s current of
        None \<Rightarrow> Some (Inl Fault)
      | Some c \<Rightarrow>
          if next_f c = 0 then Some (Inr s)
          else case hdr s (next_f c) of
            None \<Rightarrow> Some (Inl Fault)
          | Some n \<Rightarrow>
              if free_f c \<noteq> 0 \<and> free_f n \<noteq> 0 \<and> current + META_SIZE + size_f c = next_f c
              then merge_free_blocks
                     (set_hdr s current
                        (c\<lparr>size_f := size_f c + (META_SIZE + size_f n), next_f := next_f n\<rparr>))
                     current
              else merge_free_blocks s (next_f c))"

declare merge_free_blocks.simps [code]

text \<open>\<open>free\<close> (lines 229-243).\<close>

definition free :: "heap \<Rightarrow> addr \<Rightarrow> heap result" where
  "free s ptr =
     (if ptr = 0 then Some (Inr s)
      else
        let block = ptr - META_SIZE in
        case hdr s block of
          None \<Rightarrow> Some (Inl Fault)
        | Some b \<Rightarrow>
            if free_f b \<noteq> 0 then Some (Inl Abort)
            else if \<not> (magic b = 0x77777777 \<or> magic b = 0x12345678) then Some (Inl Abort)
            else merge_free_blocks
                   (set_hdr s block (b\<lparr>free_f := 1, marked := 0, magic := 0x55555555\<rparr>))
                   (global_base s))"

text \<open>\<open>memcpy\<close> of the C library: \<open>n\<close> bytes from \<open>src\<close> to \<open>dst\<close>.\<close>

definition memcpy :: "(addr \<Rightarrow> 8 word) \<Rightarrow> addr \<Rightarrow> addr \<Rightarrow> 64 word \<Rightarrow> (addr \<Rightarrow> 8 word)" where
  "memcpy m dst src n = (\<lambda>a. if a - dst < n then m (src + (a - dst)) else m a)"

text \<open>\<open>realloc\<close> (lines 245-269).\<close>

definition realloc :: "heap \<Rightarrow> addr \<Rightarrow> 64 word \<Rightarrow> (addr \<times> heap) result" where
  "realloc s ptr size0 =
     (if ptr = 0 then malloc s size0
      else if size0 = 0 then bind_r (free s ptr) (\<lambda>s1. Some (Inr (0, s1)))
      else
        let block = ptr - META_SIZE in
        case hdr s block of
          None \<Rightarrow> Some (Inl Fault)
        | Some b \<Rightarrow>
            if size0 \<le> size_f b then Some (Inr (ptr, s))
            else bind_r (malloc s size0) (\<lambda>(new_ptr, s1).
              if new_ptr \<noteq> 0 then
                (case hdr s1 block of
                   None \<Rightarrow> Some (Inl Fault)
                 | Some b1 \<Rightarrow>
                     bind_r (free (s1\<lparr>mem := memcpy (mem s1) new_ptr ptr (size_f b1)\<rparr>) ptr)
                       (\<lambda>s2. Some (Inr (new_ptr, s2))))
              else Some (Inr (new_ptr, s1))))"

section \<open>The collector\<close>

text \<open>
  A pointer-width word of the payload, little-endian as on x86-64: \<open>data[i]\<close> of
  line 348 is \<open>load64 (mem s) (data + 8 * i)\<close>.
\<close>

definition load64 :: "(addr \<Rightarrow> 8 word) \<Rightarrow> addr \<Rightarrow> 64 word" where
  "load64 m a =
     ucast (m a) OR push_bit 8 (ucast (m (a + 1))) OR push_bit 16 (ucast (m (a + 2)))
     OR push_bit 24 (ucast (m (a + 3))) OR push_bit 32 (ucast (m (a + 4)))
     OR push_bit 40 (ucast (m (a + 5))) OR push_bit 48 (ucast (m (a + 6)))
     OR push_bit 56 (ucast (m (a + 7)))"

text \<open>
  The inner loop of \<open>scan_region\<close> (lines 308-319): find the block whose payload holds
  \<open>v\<close>, mark it and stop.
\<close>

partial_function (option) scan_region_block :: "heap \<Rightarrow> addr \<Rightarrow> 64 word \<Rightarrow> heap result" where
  "scan_region_block s block v =
     (if block = 0 then Some (Inr s)
      else case hdr s block of
        None \<Rightarrow> Some (Inl Fault)
      | Some b \<Rightarrow>
          let block_start = block + META_SIZE;
              block_end = block_start + size_f b
          in if block_start \<le> v \<and> v < block_end
             then Some (Inr (set_hdr s block (b\<lparr>marked := 1\<rparr>)))
             else scan_region_block s (next_f b) v)"

declare scan_region_block.simps [code]

text \<open>
  The loop of \<open>scan_region\<close> over the words of the region (lines 301-321). The region
  lies outside the arena and belongs to the Root Set Provider; it is given as the list
  of the words \<open>*p\<close> for \<open>start \<le> p < end\<close>, in the order the loop reads them.
\<close>

fun scan_region_words :: "heap \<Rightarrow> addr \<Rightarrow> addr \<Rightarrow> 64 word list \<Rightarrow> heap result" where
  "scan_region_words s heap_start heap_end [] = Some (Inr s)"
| "scan_region_words s heap_start heap_end (v # vs) =
     (if heap_start \<le> v \<and> v < heap_end
      then bind_r (scan_region_block s (global_base s) v)
             (\<lambda>s1. scan_region_words s1 heap_start heap_end vs)
      else scan_region_words s heap_start heap_end vs)"

text \<open>\<open>scan_region\<close> (lines 293-322).\<close>

definition scan_region :: "heap \<Rightarrow> 64 word list \<Rightarrow> heap result" where
  "scan_region s region =
     (if global_base s = 0 then Some (Inr s)
      else
        let heap_start = global_base s + META_SIZE;
            heap_end = fst (sbrk s 0)
        in scan_region_words s heap_start heap_end region)"

text \<open>
  The innermost loop of \<open>scan_heap\<close> (lines 352-365): every unmarked block whose
  payload holds \<open>v\<close> is marked; the loop does not stop at the first one.
\<close>

partial_function (option) scan_heap_other ::
  "heap \<Rightarrow> addr \<Rightarrow> 64 word \<Rightarrow> 32 word \<Rightarrow> (heap \<times> 32 word) result" where
  "scan_heap_other s other v new_marks =
     (if other = 0 then Some (Inr (s, new_marks))
      else case hdr s other of
        None \<Rightarrow> Some (Inl Fault)
      | Some b \<Rightarrow>
          if marked b = 0 then
            let other_start = other + META_SIZE;
                other_end = other + META_SIZE + size_f b
            in if other_start \<le> v \<and> v < other_end
               then scan_heap_other (set_hdr s other (b\<lparr>marked := 1\<rparr>)) (next_f b) v 1
               else scan_heap_other s (next_f b) v new_marks
          else scan_heap_other s (next_f b) v new_marks)"

declare scan_heap_other.simps [code]

text \<open>
  The loop over the words of one block (lines 347-366); \<open>i\<close> counts up to
  \<open>word_count\<close>, which line 345 computes once.
\<close>

function scan_heap_words ::
  "heap \<Rightarrow> addr \<Rightarrow> nat \<Rightarrow> nat \<Rightarrow> 32 word \<Rightarrow> (heap \<times> 32 word) result" where
  "scan_heap_words s data i word_count new_marks =
     (if i < word_count then
        (case scan_heap_other s (global_base s) (load64 (mem s) (data + 8 * of_nat i)) new_marks of
           None \<Rightarrow> None
         | Some (Inl e) \<Rightarrow> Some (Inl e)
         | Some (Inr (s1, nm1)) \<Rightarrow> scan_heap_words s1 data (Suc i) word_count nm1)
      else Some (Inr (s, new_marks)))"
  by pat_completeness auto
termination
  by (relation "measure (\<lambda>(s, data, i, word_count, new_marks). word_count - i)") auto

declare scan_heap_words.simps [simp del]

text \<open>The loop over the blocks (lines 337-367).\<close>

partial_function (option) scan_heap_blocks ::
  "heap \<Rightarrow> addr \<Rightarrow> 32 word \<Rightarrow> (heap \<times> 32 word) result" where
  "scan_heap_blocks s block new_marks =
     (if block = 0 then Some (Inr (s, new_marks))
      else case hdr s block of
        None \<Rightarrow> Some (Inl Fault)
      | Some b \<Rightarrow>
          if marked b = 0 then scan_heap_blocks s (next_f b) new_marks
          else
            Option.bind
              (scan_heap_words s (block + META_SIZE) 0 (unat (size_f b div 8)) new_marks)
              (\<lambda>r. case r of
                 Inl e \<Rightarrow> Some (Inl e)
               | Inr (s1, nm1) \<Rightarrow>
                   (case hdr s1 block of
                      None \<Rightarrow> Some (Inl Fault)
                    | Some b1 \<Rightarrow> scan_heap_blocks s1 (next_f b1) nm1)))"

declare scan_heap_blocks.simps [code]

text \<open>The \<open>do ... while (new_marks)\<close> of lines 331-368.\<close>

partial_function (option) scan_heap_loop :: "heap \<Rightarrow> heap result" where
  "scan_heap_loop s =
     Option.bind (scan_heap_blocks s (global_base s) 0)
       (\<lambda>r. case r of
          Inl e \<Rightarrow> Some (Inl e)
        | Inr (s1, new_marks) \<Rightarrow>
            if new_marks \<noteq> 0 then scan_heap_loop s1 else Some (Inr s1))"

declare scan_heap_loop.simps [code]

text \<open>\<open>scan_heap\<close> (lines 324-369).\<close>

definition scan_heap :: "heap \<Rightarrow> heap result" where
  "scan_heap s = (if global_base s = 0 then Some (Inr s) else scan_heap_loop s)"

text \<open>The loop of \<open>gc\<close> that clears the marks (lines 376-379).\<close>

partial_function (option) gc_reset :: "heap \<Rightarrow> addr \<Rightarrow> heap result" where
  "gc_reset s block =
     (if block = 0 then Some (Inr s)
      else case hdr s block of
        None \<Rightarrow> Some (Inl Fault)
      | Some b \<Rightarrow> gc_reset (set_hdr s block (b\<lparr>marked := 0\<rparr>)) (next_f b))"

declare gc_reset.simps [code]

text \<open>The sweep loop of \<open>gc\<close> (lines 397-408).\<close>

partial_function (option) gc_sweep :: "heap \<Rightarrow> addr \<Rightarrow> heap result" where
  "gc_sweep s block =
     (if block = 0 then Some (Inr s)
      else case hdr s block of
        None \<Rightarrow> Some (Inl Fault)
      | Some b \<Rightarrow>
          if marked b = 0 \<and> free_f b = 0
          then gc_sweep
                 (set_hdr s block (b\<lparr>free_f := 1, marked := 0, magic := 0x55555555\<rparr>))
                 (next_f b)
          else gc_sweep s (next_f b))"

declare gc_sweep.simps [code]

text \<open>
  The mark phase of \<open>gc\<close> (lines 376-394): clear the marks, scan the static data
  (\<open>&etext\<close> to \<open>&end\<close>), scan the stack (the frame pointer to \<open>stack_bottom\<close>), close
  under the pointers found in marked payloads.
\<close>

definition gc_mark :: "heap \<Rightarrow> 64 word list \<Rightarrow> 64 word list \<Rightarrow> heap result" where
  "gc_mark s data_region stack_region =
     bind_r (gc_reset s (global_base s)) (\<lambda>s1.
     bind_r (scan_region s1 data_region) (\<lambda>s2.
     bind_r (scan_region s2 stack_region) (\<lambda>s3.
     scan_heap s3)))"

text \<open>\<open>gc\<close> (lines 371-409).\<close>

definition gc :: "heap \<Rightarrow> 64 word list \<Rightarrow> 64 word list \<Rightarrow> heap result" where
  "gc s data_region stack_region =
     (if global_base s = 0 then Some (Inr s)
      else bind_r (gc_mark s data_region stack_region) (\<lambda>s4.
             gc_sweep s4 (global_base s4)))"

text \<open>The tags \<open>free\<close> accepts (the \<open>assert\<close> of line 236).\<close>

definition allocated_tag :: "block_meta \<Rightarrow> bool" where
  "allocated_tag b \<longleftrightarrow> magic b = 0x77777777 \<or> magic b = 0x12345678"

section \<open>Well-formed block lists\<close>

text \<open>
  \<open>chain h p as\<close>: following \<open>next\<close> from \<open>p\<close> visits exactly the headers at the
  addresses \<open>as\<close> and then reaches \<open>NULL\<close>.
\<close>

fun chain :: "(addr \<rightharpoonup> block_meta) \<Rightarrow> addr \<Rightarrow> addr list \<Rightarrow> bool" where
  "chain h p [] \<longleftrightarrow> p = 0"
| "chain h p (a # as) \<longleftrightarrow>
     p = a \<and> a \<noteq> 0 \<and> (case h a of None \<Rightarrow> False | Some b \<Rightarrow> chain h (next_f b) as)"

section \<open>Example heaps\<close>


text \<open>One allocated block of 8 bytes at \<open>0x1000\<close>, and a memory source that is exhausted.\<close>

definition heap_full :: heap where
  "heap_full =
     \<lparr>global_base = 0x1000, brk = 0x1028, brk_limit = 0x1028,
      hdr = [0x1000 \<mapsto>
        \<lparr>size_f = 8, next_f = 0, free_f = 0, marked = 1, magic = 0x12345678\<rparr>],
      mem = (\<lambda>_. 0)\<rparr>"

text \<open>Two headers with the same free flag, mark flag and tag.\<close>

definition same_flags :: "block_meta \<Rightarrow> block_meta \<Rightarrow> bool" where
  "same_flags b c \<longleftrightarrow> free_f c = free_f b \<and> marked c = marked b \<and> magic c = magic b"

section \<open>The mark flags as a function\<close>

text \<open>
  The loops of the collector's mark phase read the list, the sizes and the payloads, and
  write mark flags only. To reason about them, the mark flags of a heap are taken out as a
  function from addresses, and each loop is mirrored by a function on such mark
  assignments that recurses over the list of block addresses.
\<close>

definition marks_of :: "heap \<Rightarrow> addr \<Rightarrow> 32 word" where
  "marks_of s a = (case hdr s a of None \<Rightarrow> 0 | Some b \<Rightarrow> marked b)"

definition sizes_of :: "heap \<Rightarrow> addr \<Rightarrow> 64 word" where
  "sizes_of s a = (case hdr s a of None \<Rightarrow> 0 | Some b \<Rightarrow> size_f b)"

definition set_marks :: "(addr \<Rightarrow> 32 word) \<Rightarrow> heap \<Rightarrow> heap" where
  "set_marks m s = s\<lparr>hdr := (\<lambda>a. map_option (\<lambda>b. b\<lparr>marked := m a\<rparr>) (hdr s a))\<rparr>"

text \<open>Mirror of \<open>scan_region_block\<close>.\<close>

fun region_block_m ::
  "(addr \<Rightarrow> 64 word) \<Rightarrow> addr list \<Rightarrow> 64 word \<Rightarrow> (addr \<Rightarrow> 32 word) \<Rightarrow> (addr \<Rightarrow> 32 word)" where
  "region_block_m sz [] v m = m"
| "region_block_m sz (a # as) v m =
     (if a + META_SIZE \<le> v \<and> v < a + META_SIZE + sz a then m(a := 1)
      else region_block_m sz as v m)"

text \<open>Mirror of \<open>scan_region_words\<close>.\<close>

fun region_words_m ::
  "(addr \<Rightarrow> 64 word) \<Rightarrow> addr list \<Rightarrow> addr \<Rightarrow> addr \<Rightarrow> 64 word list \<Rightarrow>
   (addr \<Rightarrow> 32 word) \<Rightarrow> (addr \<Rightarrow> 32 word)" where
  "region_words_m sz as hs he [] m = m"
| "region_words_m sz as hs he (v # vs) m =
     (if hs \<le> v \<and> v < he then region_words_m sz as hs he vs (region_block_m sz as v m)
      else region_words_m sz as hs he vs m)"

text \<open>Mirror of \<open>scan_heap_other\<close>.\<close>

fun heap_other_m ::
  "(addr \<Rightarrow> 64 word) \<Rightarrow> addr list \<Rightarrow> 64 word \<Rightarrow> (addr \<Rightarrow> 32 word) \<times> 32 word \<Rightarrow>
   (addr \<Rightarrow> 32 word) \<times> 32 word" where
  "heap_other_m sz [] v (m, nm) = (m, nm)"
| "heap_other_m sz (a # as) v (m, nm) =
     (if m a = 0 \<and> a + META_SIZE \<le> v \<and> v < a + META_SIZE + sz a
      then heap_other_m sz as v (m(a := 1), 1)
      else heap_other_m sz as v (m, nm))"

text \<open>
  Mirror of \<open>scan_heap_words\<close>; the first number is how many words are left,
  \<open>word_count - i\<close>.
\<close>

primrec heap_words_m ::
  "(addr \<Rightarrow> 64 word) \<Rightarrow> (addr \<Rightarrow> 8 word) \<Rightarrow> addr list \<Rightarrow> addr \<Rightarrow> nat \<Rightarrow> nat \<Rightarrow>
   (addr \<Rightarrow> 32 word) \<times> 32 word \<Rightarrow> (addr \<Rightarrow> 32 word) \<times> 32 word" where
  "heap_words_m sz mm as data 0 i mn = mn"
| "heap_words_m sz mm as data (Suc k) i mn =
     heap_words_m sz mm as data k (Suc i)
       (heap_other_m sz as (load64 mm (data + 8 * of_nat i)) mn)"

text \<open>Mirror of \<open>scan_heap_blocks\<close>.\<close>

fun heap_blocks_m ::
  "(addr \<Rightarrow> 64 word) \<Rightarrow> (addr \<Rightarrow> 8 word) \<Rightarrow> addr list \<Rightarrow> addr list \<Rightarrow>
   (addr \<Rightarrow> 32 word) \<times> 32 word \<Rightarrow> (addr \<Rightarrow> 32 word) \<times> 32 word" where
  "heap_blocks_m sz mm as [] mn = mn"
| "heap_blocks_m sz mm as (a # bs) mn =
     (if fst mn a = 0 then heap_blocks_m sz mm as bs mn
      else heap_blocks_m sz mm as bs
             (heap_words_m sz mm as (a + META_SIZE) (unat (sz a div 8)) 0 mn))"

text \<open>What the sweep does to one header (lines 401-405).\<close>

definition sweep_hdr :: "block_meta \<Rightarrow> block_meta" where
  "sweep_hdr b =
     (if marked b = 0 \<and> free_f b = 0
      then b\<lparr>free_f := 1, marked := 0, magic := 0x55555555\<rparr> else b)"

text \<open>
  Mirror of \<open>scan_heap_loop\<close>, with the number of passes bounded: every pass but the
  last marks a block that was unmarked, so one pass more than there are blocks is enough.
\<close>

primrec heap_loop_m ::
  "(addr \<Rightarrow> 64 word) \<Rightarrow> (addr \<Rightarrow> 8 word) \<Rightarrow> addr list \<Rightarrow> nat \<Rightarrow>
   (addr \<Rightarrow> 32 word) \<Rightarrow> (addr \<Rightarrow> 32 word)" where
  "heap_loop_m sz mm as 0 m = m"
| "heap_loop_m sz mm as (Suc k) m =
     (if snd (heap_blocks_m sz mm as as (m, 0)) \<noteq> 0
      then heap_loop_m sz mm as k (fst (heap_blocks_m sz mm as as (m, 0)))
      else fst (heap_blocks_m sz mm as as (m, 0)))"

text \<open>The mark assignment at the end of the mark phase of \<open>gc\<close>, for the block list \<open>as\<close>.\<close>

definition gc_marks_m ::
  "heap \<Rightarrow> addr list \<Rightarrow> 64 word list \<Rightarrow> 64 word list \<Rightarrow> (addr \<Rightarrow> 32 word)" where
  "gc_marks_m s as data_region stack_region =
     heap_loop_m (sizes_of s) (mem s) as (Suc (length as))
       (region_words_m (sizes_of s) as (global_base s + META_SIZE) (brk s) stack_region
         (region_words_m (sizes_of s) as (global_base s + META_SIZE) (brk s) data_region
           (\<lambda>a. if a \<in> set as then 0 else marks_of s a)))"

text \<open>
  One step of marking, on mark assignments with the flag \<open>new_marks\<close>: marks outside the
  list stay, a set mark stays set, and the flag changes only when a block of the list
  that was unmarked is now marked.
\<close>

definition adv ::
  "addr list \<Rightarrow> (addr \<Rightarrow> 32 word) \<times> 32 word \<Rightarrow> (addr \<Rightarrow> 32 word) \<times> 32 word \<Rightarrow> bool" where
  "adv as mn mn' \<longleftrightarrow>
     (\<forall>a. a \<notin> set as \<longrightarrow> fst mn' a = fst mn a) \<and>
     (\<forall>a. fst mn a \<noteq> 0 \<longrightarrow> fst mn' a \<noteq> 0) \<and>
     (snd mn' = snd mn \<or> (\<exists>a\<in>set as. fst mn a = 0 \<and> fst mn' a \<noteq> 0))"

text \<open>The blocks of a list that are unmarked.\<close>

definition unmarked :: "addr list \<Rightarrow> (addr \<Rightarrow> 32 word) \<Rightarrow> addr set" where
  "unmarked as m = {a \<in> set as. m a = 0}"

text \<open>
  Four allocated blocks of 16 bytes, one after the other. The first word of the payload of
  the block at \<open>0x1000\<close> holds \<open>0x1050\<close>, the payload address of the block at \<open>0x1030\<close>;
  nothing points to the blocks at \<open>0x1060\<close> and \<open>0x1090\<close>, which are address-adjacent.
\<close>

definition heap_four :: heap where
  "heap_four =
     \<lparr>global_base = 0x1000, brk = 0x10C0, brk_limit = 0x2000,
      hdr = [0x1000 \<mapsto>
               \<lparr>size_f = 16, next_f = 0x1030, free_f = 0, marked = 1, magic = 0x12345678\<rparr>,
             0x1030 \<mapsto>
               \<lparr>size_f = 16, next_f = 0x1060, free_f = 0, marked = 1, magic = 0x12345678\<rparr>,
             0x1060 \<mapsto>
               \<lparr>size_f = 16, next_f = 0x1090, free_f = 0, marked = 1, magic = 0x12345678\<rparr>,
             0x1090 \<mapsto>
               \<lparr>size_f = 16, next_f = 0, free_f = 0, marked = 1, magic = 0x12345678\<rparr>],
      mem = (\<lambda>_. 0)(0x1020 := 0x50, 0x1021 := 0x10)\<rparr>"


section \<open>Adjacency and address order\<close>

text \<open>
  Two blocks that the coalescing pass would merge (the test of lines 217-218): both
  free, and the payload of the first ends where the header of the second begins.
\<close>

definition mergeable :: "(addr \<rightharpoonup> block_meta) \<Rightarrow> addr \<Rightarrow> addr \<Rightarrow> bool" where
  "mergeable h a c =
     (case h a of
        None \<Rightarrow> False
      | Some x \<Rightarrow>
          (case h c of
             None \<Rightarrow> False
           | Some y \<Rightarrow> free_f x \<noteq> 0 \<and> free_f y \<noteq> 0 \<and> a + META_SIZE + size_f x = c))"

text \<open>No block of the list and its successor in the list are mergeable.\<close>

fun no_adj :: "(addr \<rightharpoonup> block_meta) \<Rightarrow> addr list \<Rightarrow> bool" where
  "no_adj h [] \<longleftrightarrow> True"
| "no_adj h [a] \<longleftrightarrow> True"
| "no_adj h (a # c # cs) \<longleftrightarrow> \<not> mergeable h a c \<and> no_adj h (c # cs)"

text \<open>
  The first invariant of the block list: the blocks lie in the order of the list, each
  one (header and payload) ending at or before the address where the next one begins, and
  the last one at or before \<open>lim\<close>, with no wrap-around.
\<close>

fun ordered :: "(addr \<rightharpoonup> block_meta) \<Rightarrow> nat \<Rightarrow> addr list \<Rightarrow> bool" where
  "ordered h lim [] \<longleftrightarrow> True"
| "ordered h lim [a] \<longleftrightarrow>
     (case h a of None \<Rightarrow> False
      | Some b \<Rightarrow> unat a + unat META_SIZE + unat (size_f b) \<le> lim)"
| "ordered h lim (a # c # cs) \<longleftrightarrow>
     (case h a of None \<Rightarrow> False
      | Some b \<Rightarrow> unat a + unat META_SIZE + unat (size_f b) \<le> unat c) \<and>
     ordered h lim (c # cs)"



section \<open>Alignment\<close>

text \<open>A word that is a multiple of the pointer width, \<open>sizeof(uintptr_t) = 8\<close>.\<close>

definition aligned :: "64 word \<Rightarrow> bool" where
  "aligned x \<longleftrightarrow> unat x mod 8 = 0"

text \<open>
  The break is aligned, and every header of the store sits at an aligned address and
  records an aligned size.
\<close>

definition aligned_heap :: "heap \<Rightarrow> bool" where
  "aligned_heap s \<longleftrightarrow>
     aligned (brk s) \<and> (\<forall>a b. hdr s a = Some b \<longrightarrow> aligned a \<and> aligned (size_f b))"

section \<open>Sequences of operations\<close>

text \<open>
  What a program does with the heap: the four operations of the interface, and a write of
  one byte into memory between them. \<open>run_ops\<close> runs a sequence from a heap and returns
  the final heap with the pointers that \<open>malloc\<close> and \<open>realloc\<close> returned, in order; it
  stops at the first call that aborts.
\<close>

datatype op =
    Malloc "64 word"
  | Free addr
  | Realloc addr "64 word"
  | Gc "64 word list" "64 word list"
  | Store addr "8 word"

fun run_ops :: "heap \<Rightarrow> op list \<Rightarrow> (heap \<times> addr list) result" where
  "run_ops s [] = Some (Inr (s, []))"
| "run_ops s (Malloc n # ops) =
     bind_r (malloc s n) (\<lambda>(p, s1).
       bind_r (run_ops s1 ops) (\<lambda>(s2, ps). Some (Inr (s2, p # ps))))"
| "run_ops s (Free p # ops) = bind_r (free s p) (\<lambda>s1. run_ops s1 ops)"
| "run_ops s (Realloc p n # ops) =
     bind_r (realloc s p n) (\<lambda>(q, s1).
       bind_r (run_ops s1 ops) (\<lambda>(s2, ps). Some (Inr (s2, q # ps))))"
| "run_ops s (Gc data_region stack_region # ops) =
     bind_r (gc s data_region stack_region) (\<lambda>s1. run_ops s1 ops)"
| "run_ops s (Store a v # ops) = run_ops (s\<lparr>mem := (mem s)(a := v)\<rparr>) ops"

text \<open>
  A step that changes flags only: the break stays, and every header of the new store is a
  header of the old one with the same size.
\<close>

definition keeps_sizes :: "heap \<Rightarrow> heap \<Rightarrow> bool" where
  "keeps_sizes s s' \<longleftrightarrow>
     brk s' = brk s \<and>
     (\<forall>a b'. hdr s' a = Some b' \<longrightarrow> (\<exists>b. hdr s a = Some b \<and> size_f b' = size_f b))"

text \<open>The empty arena, with the break at \<open>0x1000\<close> and room up to \<open>0x2000\<close>.\<close>

definition heap_empty :: heap where
  "heap_empty =
     \<lparr>global_base = 0, brk = 0x1000, brk_limit = 0x2000, hdr = Map.empty, mem = (\<lambda>_. 0)\<rparr>"


section \<open>Well-formed heaps\<close>

text \<open>
  \<open>path h p as q\<close>: following \<open>next\<close> from \<open>p\<close> visits the headers at \<open>as\<close> and arrives
  at \<open>q\<close>; a \<open>chain\<close> is a path to \<open>NULL\<close>.
\<close>

fun path :: "(addr \<rightharpoonup> block_meta) \<Rightarrow> addr \<Rightarrow> addr list \<Rightarrow> addr \<Rightarrow> bool" where
  "path h p [] q \<longleftrightarrow> p = q"
| "path h p (a # as) q \<longleftrightarrow>
     p = a \<and> a \<noteq> 0 \<and> (case h a of None \<Rightarrow> False | Some b \<Rightarrow> path h (next_f b) as q)"

text \<open>
  A heap whose block list is \<open>as\<close>: the list is well formed, and its blocks lie in
  address order below the break.
\<close>

definition heap_ok :: "heap \<Rightarrow> addr list \<Rightarrow> bool" where
  "heap_ok s as \<longleftrightarrow>
     chain (hdr s) (global_base s) as \<and> ordered (hdr s) (unat (brk s)) as"

text \<open>
  Requests whose size, rounded up and with a header and \<open>MIN_SIZE\<close> added, still fits a
  \<open>size_t\<close>.
\<close>

definition small_request :: "64 word \<Rightarrow> bool" where
  "small_request n \<longleftrightarrow> unat n + 47 < 2 ^ 64"

fun small_requests :: "op list \<Rightarrow> bool" where
  "small_requests [] \<longleftrightarrow> True"
| "small_requests (Malloc n # ops) \<longleftrightarrow> small_request n \<and> small_requests ops"
| "small_requests (Realloc p n # ops) \<longleftrightarrow> small_request n \<and> small_requests ops"
| "small_requests (x # ops) \<longleftrightarrow> small_requests ops"

text \<open>
  \<open>returns m Q\<close>: the call \<open>m\<close> finishes, and when it finishes normally (no failed
  \<open>assert\<close>, no read of a missing header) its result satisfies \<open>Q\<close>.
\<close>

definition returns :: "'a result \<Rightarrow> ('a \<Rightarrow> bool) \<Rightarrow> bool" where
  "returns m Q \<longleftrightarrow>
     (case m of None \<Rightarrow> False | Some (Inl e) \<Rightarrow> True | Some (Inr x) \<Rightarrow> Q x)"

section \<open>Basic facts\<close>

lemma bind_r_simps [simp]:
  "bind_r None f = None"
  "bind_r (Some (Inl e)) f = Some (Inl e)"
  "bind_r (Some (Inr x)) f = f x"
  by (simp_all add: bind_r_def)

lemma bind_r_eq_Inr:
  "bind_r m f = Some (Inr y) \<longleftrightarrow> (\<exists>x. m = Some (Inr x) \<and> f x = Some (Inr y))"
  by (cases m) (auto simp: bind_r_def split: sum.splits)

lemma hdr_set_hdr [simp]: "hdr (set_hdr s a b) = (hdr s)(a \<mapsto> b)"
  by (simp add: set_hdr_def)

lemma set_hdr_fields [simp]:
  "global_base (set_hdr s a b) = global_base s"
  "brk (set_hdr s a b) = brk s"
  "brk_limit (set_hdr s a b) = brk_limit s"
  "mem (set_hdr s a b) = mem s"
  by (simp_all add: set_hdr_def)

section \<open>Release of a null pointer\<close>

text \<open>
  Claim C10. \<open>free(NULL)\<close> returns at once (line 230): the call ends normally, with the
  heap it was given, so every header field and every payload byte is as before.
\<close>

theorem free_null: "free s 0 = Some (Inr s)"
  by (simp add: free_def)

section \<open>Reallocation to a size that fits\<close>

text \<open>
  Claim C7. \<open>realloc(p, n)\<close> with \<open>p\<close> not null, \<open>n\<close> not zero and \<open>n\<close> at most the
  recorded size of the block returns \<open>p\<close> and leaves the heap as it was: the size, the
  free flag and the payload are unchanged, and nothing is split off.
\<close>

theorem realloc_no_shrink:
  assumes "ptr \<noteq> 0" and "size0 \<noteq> 0"
    and "hdr s (ptr - META_SIZE) = Some b" and "size0 \<le> size_f b"
  shows "realloc s ptr size0 = Some (Inr (ptr, s))"
  using assms by (simp add: realloc_def)

theorem realloc_no_shrink_witness:
  "realloc heap_full 0x1020 5 = Some (Inr (0x1020, heap_full))"
proof -
  have "hdr heap_full (0x1020 - META_SIZE) =
      Some \<lparr>size_f = 8, next_f = 0, free_f = 0, marked = 1, magic = 0x12345678\<rparr>"
    by (simp add: heap_full_def META_SIZE_def)
  from realloc_no_shrink [OF _ _ this, of 5] show ?thesis by simp
qed

section \<open>The integrity check\<close>

text \<open>The coalescing pass changes sizes and links only: every header keeps its flags.\<close>

lemmas merge_free_blocks_induct = merge_free_blocks.raw_induct [rotated 1, consumes 1, case_names step]

lemma merge_free_blocks_flags:
  assumes "merge_free_blocks s cur = Some r"
  shows "r = Inr s' \<Longrightarrow> rel_option same_flags (hdr s a) (hdr s' a)"
  using assms
proof (induction s cur r arbitrary: s' rule: merge_free_blocks_induct)
  case (step mfb s cur r)
  note IH = step(1) and body = step(2) and r = step(3)
  have refl: "rel_option same_flags (hdr s a) (hdr s a)"
    by (cases "hdr s a") (simp_all add: same_flags_def)
  show ?case
  proof (cases "cur = 0")
    case True
    with body r refl show ?thesis by simp
  next
    case False
    then obtain c where c: "hdr s cur = Some c"
      using body r by (cases "hdr s cur") auto
    show ?thesis
    proof (cases "next_f c = 0")
      case True
      with body r refl False c show ?thesis by simp
    next
      case nz: False
      then obtain n where n: "hdr s (next_f c) = Some n"
        using body r False c by (cases "hdr s (next_f c)") auto
      show ?thesis
      proof (cases "free_f c \<noteq> 0 \<and> free_f n \<noteq> 0 \<and> cur + META_SIZE + size_f c = next_f c")
        case True
        with body False c nz n have
          "mfb (set_hdr s cur (c\<lparr>size_f := size_f c + (META_SIZE + size_f n), next_f := next_f n\<rparr>)) cur = Some r"
          by simp
        from IH [OF this r] c show ?thesis
          by (cases "a = cur") (auto simp: same_flags_def option.rel_sel split: if_splits)
      next
        case False
        with body \<open>cur \<noteq> 0\<close> c nz n have "mfb s (next_f c) = Some r" by auto
        from IH [OF this r] show ?thesis .
      qed
    qed
  qed
qed




section \<open>Splitting on reuse\<close>




section \<open>Growth when the memory source is exhausted\<close>

text \<open>
  Claim C6 at a failing input. The heap holds one allocated block of 8 bytes and the
  memory source cannot grow. \<open>realloc\<close> to 16 bytes calls \<open>malloc\<close>, which calls
  \<open>request_space\<close>; there \<open>sbrk\<close> fails, and the \<open>assert\<close> of line 142 compares the old
  break with \<open>(void *)-1\<close> before line 143 can return \<open>NULL\<close>: the call aborts.
\<close>

theorem realloc_exhausted_aborts:
  "realloc heap_full 0x1020 16 = Some (Inl Abort)"
proof -
  have "find_free_block heap_full 0 0x1000 16 = Some (Inr (0x1000, 0))"
    by (subst find_free_block.simps, simp add: heap_full_def)
       (subst find_free_block.simps, simp)
  then show ?thesis
    by (simp add: realloc_def malloc_def request_space_def sbrk_def Let_def heap_full_def
        META_SIZE_def)
qed

section \<open>The collector's loops in closed form\<close>

subsection \<open>Block lists\<close>

lemma chain_upd_next:
  "(\<And>a. a \<in> set as \<Longrightarrow> map_option next_f (h' a) = map_option next_f (h a)) \<Longrightarrow>
   chain h' p as = chain h p as"
proof (induction as arbitrary: p)
  case Nil
  show ?case by simp
next
  case (Cons a as)
  from Cons.prems [of a] have "map_option next_f (h' a) = map_option next_f (h a)" by simp
  moreover from Cons.prems have "\<And>q. chain h' q as = chain h q as"
    by (intro Cons.IH) simp
  ultimately show ?case
    by (cases "h a"; cases "h' a") auto
qed

lemma chain_hdr: "chain h p as \<Longrightarrow> a \<in> set as \<Longrightarrow> \<exists>b. h a = Some b"
  by (induction as arbitrary: p) (auto split: option.splits)

subsection \<open>Heaps that differ in their mark flags\<close>

lemma hdr_set_marks [simp]:
  "hdr (set_marks m s) a = map_option (\<lambda>b. b\<lparr>marked := m a\<rparr>) (hdr s a)"
  by (simp add: set_marks_def)

lemma set_marks_fields [simp]:
  "global_base (set_marks m s) = global_base s"
  "brk (set_marks m s) = brk s"
  "brk_limit (set_marks m s) = brk_limit s"
  "mem (set_marks m s) = mem s"
  by (simp_all add: set_marks_def)

lemma chain_set_marks [simp]: "chain (hdr (set_marks m s)) p as = chain (hdr s) p as"
  by (rule chain_upd_next) (simp add: option.map_comp comp_def)

lemma set_marks_marks_of [simp]: "set_marks (marks_of s) s = s"
proof -
  have "(\<lambda>a. map_option (\<lambda>b. b\<lparr>marked := marks_of s a\<rparr>) (hdr s a)) = hdr s"
    by (rule ext) (simp add: marks_of_def split: option.splits)
  then show ?thesis by (simp add: set_marks_def)
qed

lemma set_marks_twice [simp]: "set_marks m (set_marks m' s) = set_marks m s"
  by (simp add: set_marks_def option.map_comp comp_def)

lemma set_hdr_set_marks:
  assumes "hdr s a = Some b"
  shows "set_hdr (set_marks m s) a (b\<lparr>marked := v\<rparr>) = set_marks (m(a := v)) s"
proof -
  have "(\<lambda>x. map_option (\<lambda>b. b\<lparr>marked := m x\<rparr>) (hdr s x))(a \<mapsto> b\<lparr>marked := v\<rparr>) =
        (\<lambda>x. map_option (\<lambda>b. b\<lparr>marked := (m(a := v)) x\<rparr>) (hdr s x))"
    using assms by (auto simp: fun_eq_iff)
  then show ?thesis by (simp add: set_hdr_def set_marks_def)
qed

lemma marks_of_set_marks: "hdr s a \<noteq> None \<Longrightarrow> marks_of (set_marks m s) a = m a"
  by (auto simp: marks_of_def)

lemma sizes_of_set_marks [simp]: "sizes_of (set_marks m s) = sizes_of s"
  by (rule ext) (simp add: sizes_of_def split: option.splits)

subsection \<open>Each loop of the mark phase computes its mirror\<close>

lemma gc_reset_closed:
  "chain (hdr s) p bs \<Longrightarrow>
   gc_reset (set_marks m s) p = Some (Inr (set_marks (\<lambda>a. if a \<in> set bs then 0 else m a) s))"
proof (induction bs arbitrary: p m)
  case Nil
  then show ?case by (subst gc_reset.simps) simp
next
  case (Cons a bs)
  then obtain b where b: "hdr s a = Some b" and p: "p = a" "a \<noteq> 0"
    and ch: "chain (hdr s) (next_f b) bs"
    by (auto split: option.splits)
  have "gc_reset (set_marks m s) p = gc_reset (set_marks (m(a := 0)) s) (next_f b)"
    using b p by (subst gc_reset.simps) (simp add: set_hdr_set_marks)
  also have "\<dots> = Some (Inr (set_marks (\<lambda>x. if x \<in> set bs then 0 else (m(a := 0)) x) s))"
    by (rule Cons.IH [OF ch])
  also have "(\<lambda>x. if x \<in> set bs then 0 else (m(a := 0)) x) =
      (\<lambda>x. if x \<in> set (a # bs) then 0 else m x)"
    by auto
  finally show ?case .
qed

lemma scan_region_block_closed:
  "chain (hdr s) p bs \<Longrightarrow>
   scan_region_block (set_marks m s) p v =
     Some (Inr (set_marks (region_block_m (sizes_of s) bs v m) s))"
proof (induction bs arbitrary: p)
  case Nil
  then show ?case by (subst scan_region_block.simps) simp
next
  case (Cons a bs)
  then obtain b where b: "hdr s a = Some b" and p: "p = a" "a \<noteq> 0"
    and ch: "chain (hdr s) (next_f b) bs"
    by (auto split: option.splits)
  have sz: "sizes_of s a = size_f b" using b by (simp add: sizes_of_def)
  show ?case
  proof (cases "a + META_SIZE \<le> v \<and> v < a + META_SIZE + size_f b")
    case True
    then show ?thesis
      using b p by (subst scan_region_block.simps) (simp add: set_hdr_set_marks sz Let_def)
  next
    case False
    then have "scan_region_block (set_marks m s) p v =
        scan_region_block (set_marks m s) (next_f b) v"
      using b p by (subst scan_region_block.simps) (auto simp: Let_def)
    also have "\<dots> = Some (Inr (set_marks (region_block_m (sizes_of s) bs v m) s))"
      by (rule Cons.IH [OF ch])
    finally show ?thesis using False by (auto simp: sz)
  qed
qed

lemma scan_region_words_closed:
  "chain (hdr s) (global_base s) as \<Longrightarrow>
   scan_region_words (set_marks m s) hs he vs =
     Some (Inr (set_marks (region_words_m (sizes_of s) as hs he vs m) s))"
proof (induction vs arbitrary: m)
  case Nil
  show ?case by simp
next
  case (Cons v vs)
  show ?case
  proof (cases "hs \<le> v \<and> v < he")
    case True
    then have "scan_region_words (set_marks m s) hs he (v # vs) =
       scan_region_words (set_marks (region_block_m (sizes_of s) as v m) s) hs he vs"
      using scan_region_block_closed [OF Cons.prems, of m v] by simp
    also have "\<dots> = Some (Inr (set_marks
        (region_words_m (sizes_of s) as hs he vs (region_block_m (sizes_of s) as v m)) s))"
      by (rule Cons.IH [OF Cons.prems])
    finally show ?thesis using True by simp
  next
    case False
    then have "scan_region_words (set_marks m s) hs he (v # vs) =
       scan_region_words (set_marks m s) hs he vs"
      by auto
    also have "\<dots> = Some (Inr (set_marks (region_words_m (sizes_of s) as hs he vs m) s))"
      by (rule Cons.IH [OF Cons.prems])
    finally show ?thesis using False by auto
  qed
qed

lemma scan_heap_other_closed:
  "chain (hdr s) p bs \<Longrightarrow>
   scan_heap_other (set_marks m s) p v nm =
     Some (Inr (set_marks (fst (heap_other_m (sizes_of s) bs v (m, nm))) s,
                snd (heap_other_m (sizes_of s) bs v (m, nm))))"
proof (induction bs arbitrary: p m nm)
  case Nil
  then show ?case by (subst scan_heap_other.simps) simp
next
  case (Cons a bs)
  then obtain b where b: "hdr s a = Some b" and p: "p = a" "a \<noteq> 0"
    and ch: "chain (hdr s) (next_f b) bs"
    by (auto split: option.splits)
  have sz: "sizes_of s a = size_f b" using b by (simp add: sizes_of_def)
  show ?case
  proof (cases "m a = 0 \<and> a + META_SIZE \<le> v \<and> v < a + META_SIZE + size_f b")
    case True
    then have "scan_heap_other (set_marks m s) p v nm =
        scan_heap_other (set_marks (m(a := 1)) s) (next_f b) v 1"
      using b p by (subst scan_heap_other.simps) (simp add: set_hdr_set_marks Let_def)
    also note Cons.IH [OF ch]
    finally show ?thesis using True by (simp add: sz fun_upd_def)
  next
    case False
    then have "scan_heap_other (set_marks m s) p v nm =
        scan_heap_other (set_marks m s) (next_f b) v nm"
      using b p by (subst scan_heap_other.simps) (auto simp: Let_def)
    also note Cons.IH [OF ch]
    finally show ?thesis using False by (auto simp: sz)
  qed
qed

lemma scan_heap_words_closed:
  "chain (hdr s) (global_base s) as \<Longrightarrow> k = n - i \<Longrightarrow>
   scan_heap_words (set_marks m s) data i n nm =
     Some (Inr (set_marks (fst (heap_words_m (sizes_of s) (mem s) as data k i (m, nm))) s,
                snd (heap_words_m (sizes_of s) (mem s) as data k i (m, nm))))"
proof (induction k arbitrary: i m nm)
  case 0
  then show ?case by (subst scan_heap_words.simps) simp
next
  case (Suc k)
  then have lt: "i < n" and k: "k = n - Suc i" by auto
  obtain m1 nm1 where o: "heap_other_m (sizes_of s) as (load64 (mem s) (data + 8 * of_nat i)) (m, nm) = (m1, nm1)"
    by (cases "heap_other_m (sizes_of s) as (load64 (mem s) (data + 8 * of_nat i)) (m, nm)")
  have "scan_heap_words (set_marks m s) data i n nm =
      scan_heap_words (set_marks m1 s) data (Suc i) n nm1"
    using lt scan_heap_other_closed [OF Suc.prems(1), of m "load64 (mem s) (data + 8 * of_nat i)" nm]
    by (subst scan_heap_words.simps) (simp add: o)
  also note Suc.IH [OF Suc.prems(1) k]
  finally show ?case by (simp add: o)
qed

lemma scan_heap_blocks_closed:
  "chain (hdr s) (global_base s) as \<Longrightarrow> chain (hdr s) p bs \<Longrightarrow>
   scan_heap_blocks (set_marks m s) p nm =
     Some (Inr (set_marks (fst (heap_blocks_m (sizes_of s) (mem s) as bs (m, nm))) s,
                snd (heap_blocks_m (sizes_of s) (mem s) as bs (m, nm))))"
proof (induction bs arbitrary: p m nm)
  case Nil
  then show ?case by (subst scan_heap_blocks.simps) simp
next
  case (Cons a bs)
  then obtain b where b: "hdr s a = Some b" and p: "p = a" "a \<noteq> 0"
    and ch: "chain (hdr s) (next_f b) bs"
    by (auto split: option.splits)
  have sz: "sizes_of s a = size_f b" using b by (simp add: sizes_of_def)
  show ?case
  proof (cases "m a = 0")
    case True
    then have "scan_heap_blocks (set_marks m s) p nm =
        scan_heap_blocks (set_marks m s) (next_f b) nm"
      using b p by (subst scan_heap_blocks.simps) simp
    also note Cons.IH [OF Cons.prems(1) ch]
    finally show ?thesis using True by simp
  next
    case False
    obtain m1 nm1 where w: "heap_words_m (sizes_of s) (mem s) as (a + META_SIZE) (unat (size_f b div 8)) 0 (m, nm) = (m1, nm1)"
      by (cases "heap_words_m (sizes_of s) (mem s) as (a + META_SIZE) (unat (size_f b div 8)) 0 (m, nm)")
    have "scan_heap_blocks (set_marks m s) p nm =
        scan_heap_blocks (set_marks m1 s) (next_f b) nm1"
      using b p False
        scan_heap_words_closed [OF Cons.prems(1), of "unat (size_f b div 8)" "unat (size_f b div 8)" 0 m "a + META_SIZE" nm]
      by (subst scan_heap_blocks.simps) (simp add: w)
    also note Cons.IH [OF Cons.prems(1) ch]
    finally show ?thesis using False by (simp add: w sz)
  qed
qed

subsection \<open>The closure loop ends\<close>

lemma adv_refl: "adv as mn mn"
  by (simp add: adv_def)

lemma adv_trans: "adv as x y \<Longrightarrow> adv as y z \<Longrightarrow> adv as x z"
  unfolding adv_def
  apply (intro conjI)
    apply simp
   apply blast
  apply (elim conjE)
  apply (erule disjE; erule disjE)
     apply simp
    apply (rule disjI2) apply metis
   apply (rule disjI2) apply metis
  apply (rule disjI2) apply metis
  done

lemma heap_other_m_adv:
  "set bs \<subseteq> set as \<Longrightarrow> adv as mn (heap_other_m sz bs v mn)"
proof (induction bs arbitrary: mn)
  case Nil
  show ?case by (cases mn) (simp add: adv_refl)
next
  case (Cons a bs)
  obtain m nm where mn: "mn = (m, nm)" by (cases mn)
  from Cons.prems have sub: "set bs \<subseteq> set as" and a: "a \<in> set as" by auto
  show ?case
  proof (cases "m a = 0 \<and> a + META_SIZE \<le> v \<and> v < a + META_SIZE + sz a")
    case True
    have "adv as (m, nm) (m(a := 1), 1)"
      using True a by (auto simp: adv_def)
    from adv_trans [OF this Cons.IH [OF sub]] True show ?thesis
      by (simp add: mn)
  next
    case False
    with Cons.IH [OF sub, of mn] show ?thesis by (auto simp: mn)
  qed
qed

lemma heap_words_m_adv: "adv as mn (heap_words_m sz mm as data k i mn)"
proof (induction k arbitrary: i mn)
  case 0
  show ?case by (simp add: adv_refl)
next
  case (Suc k)
  have "adv as mn (heap_other_m sz as (load64 mm (data + 8 * of_nat i)) mn)"
    by (rule heap_other_m_adv) simp
  from adv_trans [OF this Suc.IH] show ?case by simp
qed

lemma heap_blocks_m_adv: "adv as mn (heap_blocks_m sz mm as bs mn)"
proof (induction bs arbitrary: mn)
  case Nil
  show ?case by (simp add: adv_refl)
next
  case (Cons a bs)
  show ?case
  proof (cases "fst mn a = 0")
    case True
    with Cons.IH [of mn] show ?thesis by simp
  next
    case False
    from adv_trans [OF heap_words_m_adv Cons.IH] False show ?thesis by simp
  qed
qed

lemma unmarked_less:
  assumes "adv as (m, 0) (m', nm')" and "nm' \<noteq> 0"
  shows "card (unmarked as m') < card (unmarked as m)"
proof (rule psubset_card_mono)
  show "finite (unmarked as m)" by (simp add: unmarked_def)
  from assms obtain a where a: "a \<in> set as" "m a = 0" "m' a \<noteq> 0"
    by (auto simp: adv_def)
  from assms(1) have "unmarked as m' \<subseteq> unmarked as m"
    by (auto simp: adv_def unmarked_def)
  moreover from a have "a \<in> unmarked as m" "a \<notin> unmarked as m'"
    by (simp_all add: unmarked_def)
  ultimately show "unmarked as m' \<subset> unmarked as m" by blast
qed

lemma heap_loop_m_outside:
  "a \<notin> set as \<Longrightarrow> heap_loop_m sz mm as k m a = m a"
proof (induction k arbitrary: m)
  case 0
  show ?case by simp
next
  case (Suc k)
  have "adv as (m, 0) (heap_blocks_m sz mm as as (m, 0))" by (rule heap_blocks_m_adv)
  with Suc.prems have "fst (heap_blocks_m sz mm as as (m, 0)) a = m a"
    by (simp add: adv_def)
  with Suc.IH [OF Suc.prems] show ?case by simp
qed

lemma scan_heap_loop_closed:
  "chain (hdr s) (global_base s) as \<Longrightarrow> card (unmarked as m) < k \<Longrightarrow>
   scan_heap_loop (set_marks m s) =
     Some (Inr (set_marks (heap_loop_m (sizes_of s) (mem s) as k m) s))"
proof (induction k arbitrary: m)
  case 0
  then show ?case by simp
next
  case (Suc k)
  obtain m1 nm1 where p: "heap_blocks_m (sizes_of s) (mem s) as as (m, 0) = (m1, nm1)"
    by (cases "heap_blocks_m (sizes_of s) (mem s) as as (m, 0)")
  have pass: "scan_heap_blocks (set_marks m s) (global_base s) 0 = Some (Inr (set_marks m1 s, nm1))"
    using scan_heap_blocks_closed [OF Suc.prems(1) Suc.prems(1), of m 0] by (simp add: p)
  show ?case
  proof (cases "nm1 = 0")
    case True
    with pass show ?thesis
      by (subst scan_heap_loop.simps) (simp add: p)
  next
    case False
    have "adv as (m, 0) (m1, nm1)"
      using heap_blocks_m_adv [of as "(m, 0)" "sizes_of s" "mem s" as] by (simp add: p)
    from unmarked_less [OF this False] Suc.prems(2) have "card (unmarked as m1) < k" by simp
    from Suc.IH [OF Suc.prems(1) this] pass False show ?thesis
      by (subst scan_heap_loop.simps) (simp add: p)
  qed
qed

lemma card_unmarked_le: "card (unmarked as m) \<le> length as"
proof -
  have "card (unmarked as m) \<le> card (set as)"
    by (rule card_mono) (auto simp: unmarked_def)
  also have "\<dots> \<le> length as" by (rule card_length)
  finally show ?thesis .
qed

lemma region_block_m_outside: "a \<notin> set bs \<Longrightarrow> region_block_m sz bs v m a = m a"
  by (induction bs) auto

lemma region_words_m_outside: "a \<notin> set as \<Longrightarrow> region_words_m sz as hs he vs m a = m a"
  by (induction vs arbitrary: m) (auto simp: region_block_m_outside)

lemma gc_marks_m_outside: "a \<notin> set as \<Longrightarrow> gc_marks_m s as d k a = marks_of s a"
  by (simp add: gc_marks_m_def heap_loop_m_outside region_words_m_outside del: heap_loop_m.simps)

lemma scan_region_closed:
  assumes "chain (hdr s) (global_base s) as"
  shows "scan_region (set_marks m s) region =
     Some (Inr (set_marks
       (region_words_m (sizes_of s) as (global_base s + META_SIZE) (brk s) region m) s))"
proof (cases "global_base s = 0")
  case True
  with assms have "as = []" by (cases as) auto
  have "region_words_m (sizes_of s) [] (global_base s + META_SIZE) (brk s) region m = m"
    by (induction region) auto
  with True \<open>as = []\<close> show ?thesis by (simp add: scan_region_def)
next
  case False
  then show ?thesis
    using scan_region_words_closed [OF assms]
    by (simp add: scan_region_def sbrk_def Let_def)
qed

lemma scan_heap_closed:
  assumes "chain (hdr s) (global_base s) as"
  shows "scan_heap (set_marks m s) =
     Some (Inr (set_marks (heap_loop_m (sizes_of s) (mem s) as (Suc (length as)) m) s))"
proof (cases "global_base s = 0")
  case True
  with assms have "as = []" by (cases as) auto
  with True show ?thesis by (simp add: scan_heap_def)
next
  case False
  have "card (unmarked as m) < Suc (length as)"
    using card_unmarked_le [of as m] by simp
  from scan_heap_loop_closed [OF assms this] False show ?thesis
    by (simp add: scan_heap_def del: heap_loop_m.simps)
qed

lemma gc_mark_closed:
  assumes "chain (hdr s) (global_base s) as"
  shows "gc_mark s d k = Some (Inr (set_marks (gc_marks_m s as d k) s))"
proof -
  have "gc_reset (set_marks (marks_of s) s) (global_base s) =
      Some (Inr (set_marks (\<lambda>a. if a \<in> set as then 0 else marks_of s a) s))"
    by (rule gc_reset_closed [OF assms])
  then show ?thesis
    by (simp add: gc_mark_def gc_marks_m_def scan_region_closed [OF assms]
        scan_heap_closed [OF assms] del: heap_loop_m.simps)
qed

subsection \<open>The sweep, and \<open>gc\<close> as a whole\<close>

lemma sweep_hdr_idem [simp]: "sweep_hdr (sweep_hdr b) = sweep_hdr b"
  by (simp add: sweep_hdr_def)

lemma sweep_hdr_shape [simp]:
  "size_f (sweep_hdr b) = size_f b" "next_f (sweep_hdr b) = next_f b"
  "marked (sweep_hdr b) = marked b"
  by (simp_all add: sweep_hdr_def)

lemma gc_sweep_closed:
  "chain (hdr s) p bs \<Longrightarrow>
   gc_sweep s p =
     Some (Inr (s\<lparr>hdr := (\<lambda>a. if a \<in> set bs then map_option sweep_hdr (hdr s a) else hdr s a)\<rparr>))"
proof (induction bs arbitrary: s p)
  case Nil
  then show ?case by (subst gc_sweep.simps) simp
next
  case (Cons a bs)
  then obtain b where b: "hdr s a = Some b" and p: "p = a" "a \<noteq> 0"
    and ch: "chain (hdr s) (next_f b) bs"
    by (auto split: option.splits)
  define s2 where "s2 = set_hdr s a (sweep_hdr b)"
  have ch2: "chain (hdr s2) (next_f b) bs"
    unfolding s2_def using ch b
    by (subst chain_upd_next [where h = "hdr s"]) auto
  have "gc_sweep s p = gc_sweep s2 (next_f b)"
  proof (cases "marked b = 0 \<and> free_f b = 0")
    case True
    then show ?thesis
      using b p by (subst gc_sweep.simps) (simp add: s2_def sweep_hdr_def)
  next
    case False
    then have "sweep_hdr b = b" by (auto simp: sweep_hdr_def)
    then have "s2 = s"
      using b by (simp add: s2_def set_hdr_def fun_upd_idem)
    with False show ?thesis
      using b p by (subst gc_sweep.simps) auto
  qed
  also note Cons.IH [OF ch2]
  also have "s2\<lparr>hdr := (\<lambda>x. if x \<in> set bs then map_option sweep_hdr (hdr s2 x) else hdr s2 x)\<rparr> =
      s\<lparr>hdr := (\<lambda>x. if x \<in> set (a # bs) then map_option sweep_hdr (hdr s x) else hdr s x)\<rparr>"
    using b by (auto simp: s2_def set_hdr_def fun_eq_iff)
  finally show ?case .
qed

lemma gc_closed:
  assumes "chain (hdr s) (global_base s) as"
  shows "gc s d k =
     Some (Inr (s\<lparr>hdr := (\<lambda>a. if a \<in> set as
        then map_option (\<lambda>b. sweep_hdr (b\<lparr>marked := gc_marks_m s as d k a\<rparr>)) (hdr s a)
        else hdr s a)\<rparr>))"
proof (cases "global_base s = 0")
  case True
  with assms have "as = []" by (cases as) auto
  with True show ?thesis by (simp add: gc_def)
next
  case False
  let ?M = "gc_marks_m s as d k"
  have "gc s d k = gc_sweep (set_marks ?M s) (global_base s)"
    using False by (simp add: gc_def gc_mark_closed [OF assms])
  also have "\<dots> = Some (Inr ((set_marks ?M s)\<lparr>hdr := (\<lambda>a. if a \<in> set as
       then map_option sweep_hdr (hdr (set_marks ?M s) a) else hdr (set_marks ?M s) a)\<rparr>))"
    by (rule gc_sweep_closed) (simp add: assms)
  also have "(set_marks ?M s)\<lparr>hdr := (\<lambda>a. if a \<in> set as
       then map_option sweep_hdr (hdr (set_marks ?M s) a) else hdr (set_marks ?M s) a)\<rparr> =
     s\<lparr>hdr := (\<lambda>a. if a \<in> set as
        then map_option (\<lambda>b. sweep_hdr (b\<lparr>marked := ?M a\<rparr>)) (hdr s a)
        else hdr s a)\<rparr>"
  proof -
    have "\<And>a. a \<notin> set as \<Longrightarrow> map_option (\<lambda>b. b\<lparr>marked := ?M a\<rparr>) (hdr s a) = hdr s a"
      by (simp add: gc_marks_m_outside marks_of_def split: option.splits)
    then show ?thesis
      by (auto simp: set_marks_def fun_eq_iff option.map_comp comp_def)
  qed
  finally show ?thesis .
qed

lemma sweep_hdr_marked_upd: "(sweep_hdr b)\<lparr>marked := marked b\<rparr> = sweep_hdr b"
  by (simp add: sweep_hdr_def)

subsection \<open>The collector on the example heap\<close>


lemma sz4: "sizes_of heap_four = (\<lambda>a. if a = 0x1000 \<or> a = 0x1030 \<or> a = 0x1060 \<or> a = 0x1090 then 16 else 0)"
  by (rule ext) (simp add: sizes_of_def heap_four_def)

lemma ld1: "load64 (mem heap_four) 0x1020 = 0x1050"
  by (simp add: load64_def heap_four_def)

lemma ld0: "a \<noteq> 0x1020 \<Longrightarrow> a \<in> {0x1028, 0x1050, 0x1058} \<Longrightarrow> load64 (mem heap_four) a = 0"
  by (auto simp add: load64_def heap_four_def)


lemma w2: "unat ((16::64 word) div 8) = 2"
  by simp

lemma heap_words_m_2:
  "heap_words_m sz mm as data 2 i mn =
     heap_other_m sz as (load64 mm (data + 8 * of_nat (Suc i)))
       (heap_other_m sz as (load64 mm (data + 8 * of_nat i)) mn)"
  by (simp add: numeral_2_eq_2)

lemma other0:
  "heap_other_m (sizes_of heap_four) [0x1000, 0x1030, 0x1060, 0x1090] 0 mn = mn"
  by (cases mn) (simp add: sz4 META_SIZE_def)

lemma other1:
  "m 0x1030 = 0 \<Longrightarrow> m 0x1000 \<noteq> 0 \<Longrightarrow>
   heap_other_m (sizes_of heap_four) [0x1000, 0x1030, 0x1060, 0x1090] 0x1050 (m, nm) =
     (m(0x1030 := 1), 1)"
  by (simp add: sz4 META_SIZE_def other0)

lemma other1':
  "m 0x1030 \<noteq> 0 \<Longrightarrow> m 0x1000 \<noteq> 0 \<Longrightarrow>
   heap_other_m (sizes_of heap_four) [0x1000, 0x1030, 0x1060, 0x1090] 0x1050 (m, nm) =
     (m, nm)"
  by (simp add: sz4 META_SIZE_def other0)

lemma words_A:
  "m 0x1000 \<noteq> 0 \<Longrightarrow>
   heap_words_m (sizes_of heap_four) (mem heap_four) [0x1000, 0x1030, 0x1060, 0x1090] 0x1020 2 0 (m, nm) =
    (if m 0x1030 = 0 then (m(0x1030 := 1), 1) else (m, nm))"
  by (cases "m 0x1030 = 0")
     (simp_all add: heap_words_m_2 ld1 ld0 other0 other1 other1' del: heap_other_m.simps)

lemma words_B:
  "heap_words_m (sizes_of heap_four) (mem heap_four) [0x1000, 0x1030, 0x1060, 0x1090] 0x1050 2 0 mn = mn"
  by (simp add: heap_words_m_2 ld0 other0 del: heap_other_m.simps)

lemma szs:
  "sizes_of heap_four 0x1000 = 16" "sizes_of heap_four 0x1030 = 16"
  "sizes_of heap_four 0x1060 = 16" "sizes_of heap_four 0x1090 = 16"
  by (simp_all add: sz4)

lemma pass:
  "m 0x1000 \<noteq> 0 \<Longrightarrow> m 0x1060 = 0 \<Longrightarrow> m 0x1090 = 0 \<Longrightarrow>
   heap_blocks_m (sizes_of heap_four) (mem heap_four) [0x1000, 0x1030, 0x1060, 0x1090]
     [0x1000, 0x1030, 0x1060, 0x1090] (m, 0)
   = (if m 0x1030 = 0 then (m(0x1030 := 1), 1) else (m, 0))"
  by (cases "m 0x1030 = 0")
     (simp_all add: words_A words_B szs META_SIZE_def w2 del: heap_words_m.simps)



section \<open>What the sweep does\<close>



section \<open>What the collector leaves alone\<close>



section \<open>Collecting twice\<close>



section \<open>The coalescing pass\<close>

subsection \<open>A block list has no repetition\<close>

lemma chain_nonzero: "chain h p (a # as) \<Longrightarrow> p = a \<and> a \<noteq> 0"
  by simp

lemma chain_unique: "chain h p as \<Longrightarrow> chain h p bs \<Longrightarrow> as = bs"
proof (induction as arbitrary: p bs)
  case Nil
  then show ?case by (cases bs) auto
next
  case (Cons a as)
  then show ?case by (cases bs) (auto split: option.splits)
qed

lemma chain_suffix: "chain h p (as @ b # bs) \<Longrightarrow> chain h b (b # bs)"
proof (induction as arbitrary: p)
  case Nil
  then show ?case by simp
next
  case (Cons a as)
  from Cons.prems obtain x :: block_meta where "chain h (next_f x) (as @ b # bs)"
    by (auto split: option.splits)
  then show ?case by (rule Cons.IH)
qed

lemma chain_distinct: "chain h p as \<Longrightarrow> distinct as"
proof (induction as arbitrary: p)
  case Nil
  show ?case by simp
next
  case (Cons a as)
  then obtain b where b: "h a = Some b" and ch: "chain h (next_f b) as" and p: "p = a"
    by (auto split: option.splits)
  have "a \<notin> set as"
  proof
    assume "a \<in> set as"
    then obtain xs ys where as: "as = xs @ a # ys" by (auto simp: in_set_conv_decomp)
    with ch have "chain h a (a # ys)" by (auto dest: chain_suffix)
    with Cons.prems p have "a # as = a # ys" by (intro chain_unique) auto
    with as show False by simp
  qed
  with Cons.IH [OF ch] show ?case by simp
qed

lemma chain_upd_other:
  "a \<notin> set as \<Longrightarrow> chain (h(a \<mapsto> b)) p as = chain h p as"
  by (rule chain_upd_next) auto

lemma ordered_upd_other:
  "a \<notin> set as \<Longrightarrow> ordered (h(a \<mapsto> b)) lim as = ordered h lim as"
  by (induction h lim as rule: ordered.induct) auto

subsection \<open>Sizes without wrap-around\<close>

lemma unat_META_SIZE [simp]: "unat META_SIZE = 32"
  by (simp add: META_SIZE_def)

lemma unat_lt_2p64: "unat (x :: 64 word) < 2 ^ 64"
  using unsigned_less [of x, where 'a = nat] by simp

lemma unat_end_no_wrap:
  fixes a sz :: "64 word"
  assumes "unat a + 32 + unat sz < 2 ^ 64"
  shows "unat (a + META_SIZE + sz) = unat a + 32 + unat sz"
  using assms by (simp add: unat_word_ariths)

lemma unat_merged_size:
  fixes x y :: "64 word"
  assumes "unat x + 32 + unat y < 2 ^ 64"
  shows "unat (x + (META_SIZE + y)) = unat x + 32 + unat y"
  using assms by (simp add: unat_word_ariths)

lemma ordered_hd:
  "ordered h lim (a # cs) \<Longrightarrow>
   \<exists>b. h a = Some b \<and>
     unat a + 32 + unat (size_f b) \<le> (case cs of [] \<Rightarrow> lim | c # _ \<Rightarrow> unat c)"
  by (cases cs) (auto split: option.splits)

lemma ordered_tl: "ordered h lim (a # cs) \<Longrightarrow> ordered h lim cs"
  by (cases cs) auto

lemma ordered_Cons:
  "h a = Some b \<Longrightarrow>
   unat a + 32 + unat (size_f b) \<le> (case cs of [] \<Rightarrow> lim | c # _ \<Rightarrow> unat c) \<Longrightarrow>
   ordered h lim cs \<Longrightarrow> ordered h lim (a # cs)"
  by (cases cs) auto

lemma ordered_upd_size:
  "(\<And>a. a \<in> set as \<Longrightarrow> map_option size_f (h' a) = map_option size_f (h a)) \<Longrightarrow>
   ordered h' lim as = ordered h lim as"
proof (induction h lim as rule: ordered.induct)
  case (1 h lim)
  show ?case by simp
next
  case (2 h lim a)
  from 2 [of a] show ?case
    by (cases "h a"; cases "h' a") auto
next
  case (3 h lim a c cs)
  from 3(2) [of a] have "map_option size_f (h' a) = map_option size_f (h a)" by simp
  moreover from 3 have "ordered h' lim (c # cs) = ordered h lim (c # cs)" by simp
  ultimately show ?case
    by (cases "h a"; cases "h' a") auto
qed

subsection \<open>The pass ends, and leaves no mergeable neighbours\<close>

lemma merge_free_blocks_total:
  assumes "chain (hdr s) cur bs" and "lim < 2 ^ 64"
  shows "\<exists>h' bs'. merge_free_blocks s cur = Some (Inr (s\<lparr>hdr := h'\<rparr>)) \<and>
     chain h' cur bs' \<and> no_adj h' bs' \<and> set bs' \<subseteq> set bs \<and>
     (\<forall>a. a \<notin> set bs \<longrightarrow> h' a = hdr s a) \<and>
     (ordered (hdr s) lim bs \<longrightarrow> ordered h' lim bs')"
  using assms(1)
proof (induction "length bs" arbitrary: s cur bs rule: less_induct)
  case less
  show ?case
  proof (cases bs)
    case Nil
    with less.prems have "cur = 0" by simp
    then have "merge_free_blocks s cur = Some (Inr (s\<lparr>hdr := hdr s\<rparr>))"
      by (subst merge_free_blocks.simps) simp
    with Nil less.prems show ?thesis
      by (intro exI [of _ "hdr s"] exI [of _ "[]"]) simp
  next
    case (Cons a rest)
    with less.prems obtain c where cur: "cur = a" "a \<noteq> 0" and c: "hdr s a = Some c"
      and ch: "chain (hdr s) (next_f c) rest"
      by (auto split: option.splits)
    show ?thesis
    proof (cases rest)
      case Nil
      with ch have "next_f c = 0" by simp
      with cur c have "merge_free_blocks s cur = Some (Inr (s\<lparr>hdr := hdr s\<rparr>))"
        by (subst merge_free_blocks.simps) simp
      with Nil Cons less.prems show ?thesis
        by (intro exI [of _ "hdr s"] exI [of _ "[a]"]) simp
    next
      case rest: (Cons n rest')
      with ch obtain nb where n: "next_f c = n" "n \<noteq> 0" and nb: "hdr s n = Some nb"
        and ch': "chain (hdr s) (next_f nb) rest'"
        by (auto split: option.splits)
      from less.prems have "distinct bs" by (rule chain_distinct)
      with Cons rest have "distinct (a # n # rest')" by simp
      then have d: "a \<noteq> n" "a \<notin> set rest'" "n \<notin> set rest'" by auto
      show ?thesis
      proof (cases "free_f c \<noteq> 0 \<and> free_f nb \<noteq> 0 \<and> a + META_SIZE + size_f c = n")
        case True
        define c' where "c' = c\<lparr>size_f := size_f c + (META_SIZE + size_f nb), next_f := next_f nb\<rparr>"
        define s2 where "s2 = set_hdr s a c'"
        have step: "merge_free_blocks s cur = merge_free_blocks s2 a"
          using cur c n nb True
          by (subst merge_free_blocks.simps) (simp add: s2_def c'_def)
        have ch2: "chain (hdr s2) a (a # rest')"
          using cur ch' d by (simp add: s2_def c'_def chain_upd_other)
        have len: "length (a # rest') < length bs"
          using Cons rest by simp
        from less.hyps [OF len ch2] obtain h' bs' where
          r: "merge_free_blocks s2 a = Some (Inr (s2\<lparr>hdr := h'\<rparr>))"
          and ch3: "chain h' a bs'" and na: "no_adj h' bs'"
          and sub: "set bs' \<subseteq> set (a # rest')"
          and fr: "\<forall>x. x \<notin> set (a # rest') \<longrightarrow> h' x = hdr s2 x"
          and ord: "ordered (hdr s2) lim (a # rest') \<longrightarrow> ordered h' lim bs'"
          by blast
        have "s2\<lparr>hdr := h'\<rparr> = s\<lparr>hdr := h'\<rparr>" by (simp add: s2_def set_hdr_def)
        with step r have 1: "merge_free_blocks s cur = Some (Inr (s\<lparr>hdr := h'\<rparr>))" by simp
        have 2: "set bs' \<subseteq> set bs" using sub Cons rest by auto
        have 3: "\<forall>x. x \<notin> set bs \<longrightarrow> h' x = hdr s x"
          using fr Cons rest by (auto simp: s2_def)
        have 4: "ordered h' lim bs'" if o: "ordered (hdr s) lim bs"
        proof -
          from o Cons rest c have e1: "unat a + 32 + unat (size_f c) \<le> unat n"
            and o1: "ordered (hdr s) lim (n # rest')"
            by auto
          from ordered_hd [OF o1] nb
          have e2: "unat n + 32 + unat (size_f nb) \<le> (case rest' of [] \<Rightarrow> lim | r # _ \<Rightarrow> unat r)"
            by auto
          have B: "(case rest' of [] \<Rightarrow> lim | r # _ \<Rightarrow> unat r) < 2 ^ 64"
            using assms(2) unat_lt_2p64 by (cases rest') auto
          have "unat a + 32 + unat (size_f c) < 2 ^ 64"
            using e1 unat_lt_2p64 [of n] by simp
          from unat_end_no_wrap [OF this] True
          have e3: "unat n = unat a + 32 + unat (size_f c)" by simp
          have "unat (size_f c) + 32 + unat (size_f nb) < 2 ^ 64"
            using e2 e3 B by simp
          from unat_merged_size [OF this]
          have "unat (size_f c') = unat (size_f c) + 32 + unat (size_f nb)"
            by (simp add: c'_def)
          with e2 e3 have e4:
            "unat a + 32 + unat (size_f c') \<le> (case rest' of [] \<Rightarrow> lim | r # _ \<Rightarrow> unat r)"
            by simp
          have "ordered (hdr s2) lim rest'"
            using ordered_tl [OF o1] d by (simp add: s2_def ordered_upd_other)
          with e4 have "ordered (hdr s2) lim (a # rest')"
            by (intro ordered_Cons [where b = c']) (simp_all add: s2_def)
          with ord show ?thesis by simp
        qed
        from 1 cur ch3 na 2 3 4 show ?thesis by blast
      next
        case False
        have step: "merge_free_blocks s cur = merge_free_blocks s n"
          using cur c n nb False
          by (subst merge_free_blocks.simps) auto
        have chn: "chain (hdr s) n (n # rest')"
          using n nb ch' by simp
        have len: "length (n # rest') < length bs"
          using Cons rest by simp
        from less.hyps [OF len chn] obtain h' bs' where
          r: "merge_free_blocks s n = Some (Inr (s\<lparr>hdr := h'\<rparr>))"
          and ch3: "chain h' n bs'" and na: "no_adj h' bs'"
          and sub: "set bs' \<subseteq> set (n # rest')"
          and fr: "\<forall>x. x \<notin> set (n # rest') \<longrightarrow> h' x = hdr s x"
          and ord: "ordered (hdr s) lim (n # rest') \<longrightarrow> ordered h' lim bs'"
          by blast
        from ch3 n obtain rest'' where bs': "bs' = n # rest''"
          by (cases bs') auto
        from fr d have ha: "h' a = Some c" by (simp add: c)
        from merge_free_blocks_flags [OF r refl, of n] nb
        obtain nb' where nb': "h' n = Some nb'" and fl: "free_f nb' = free_f nb"
          by (cases "h' n") (auto simp: same_flags_def)
        have 1: "merge_free_blocks s cur = Some (Inr (s\<lparr>hdr := h'\<rparr>))"
          using step r by simp
        have 2: "chain h' cur (a # bs')"
          using cur ha n ch3 by simp
        have 3: "no_adj h' (a # bs')"
          using na False ha nb' fl by (simp add: bs' mergeable_def)
        have 4: "set (a # bs') \<subseteq> set bs" using sub Cons rest by auto
        have 5: "\<forall>x. x \<notin> set bs \<longrightarrow> h' x = hdr s x"
          using fr Cons rest by auto
        have 6: "ordered h' lim (a # bs')" if o: "ordered (hdr s) lim bs"
        proof -
          from o Cons rest c have e1: "unat a + 32 + unat (size_f c) \<le> unat n"
            and o1: "ordered (hdr s) lim (n # rest')"
            by auto
          from ord o1 have "ordered h' lim bs'" by simp
          with e1 ha show ?thesis
            by (intro ordered_Cons [where b = c]) (simp_all add: bs')
        qed
        from 1 2 3 4 5 6 show ?thesis by blast
      qed
    qed
  qed
qed

subsection \<open>In address order, only neighbours can be adjacent\<close>

lemma ordered_later:
  "ordered h lim (a # cs) \<Longrightarrow> c \<in> set cs \<Longrightarrow>
   \<exists>b. h a = Some b \<and> unat a + 32 + unat (size_f b) \<le> unat c"
proof (induction cs arbitrary: a)
  case Nil
  then show ?case by simp
next
  case (Cons c1 cs)
  from Cons.prems(1) obtain b where b: "h a = Some b"
    and e: "unat a + 32 + unat (size_f b) \<le> unat c1" and o: "ordered h lim (c1 # cs)"
    by (auto split: option.splits)
  show ?case
  proof (cases "c = c1")
    case True
    with b e show ?thesis by simp
  next
    case False
    with Cons.prems(2) have "c \<in> set cs" by simp
    from Cons.IH [OF o this] obtain b1 :: block_meta where "unat c1 + 32 + unat (size_f b1) \<le> unat c"
      by blast
    with b e show ?thesis by simp
  qed
qed


lemma ordered_below:
  "ordered h lim bs \<Longrightarrow> a \<in> set bs \<Longrightarrow>
   \<exists>b. h a = Some b \<and> unat a + 32 + unat (size_f b) \<le> lim"
proof (induction bs arbitrary: a)
  case Nil
  then show ?case by simp
next
  case (Cons x bs)
  show ?case
  proof (cases "a \<in> set bs")
    case True
    from Cons.IH [OF ordered_tl [OF Cons.prems(1)] this] show ?thesis .
  next
    case False
    with Cons.prems(2) have ax: "a = x" by simp
    show ?thesis
    proof (cases bs)
      case Nil
      with Cons.prems(1) ax show ?thesis by (auto split: option.splits)
    next
      case inner: (Cons c1 cs)
      with Cons.prems(1) ax obtain b where b: "h a = Some b"
        and e: "unat a + 32 + unat (size_f b) \<le> unat c1"
        by (auto split: option.splits)
      from Cons.IH [OF ordered_tl [OF Cons.prems(1)], of c1] inner
      obtain b1 :: block_meta where "unat c1 + 32 + unat (size_f b1) \<le> lim" by auto
      with b e show ?thesis by simp
    qed
  qed
qed



subsection \<open>Release on the example heap\<close>




section \<open>Release coalesces\<close>



section \<open>Alignment is kept\<close>

subsection \<open>Aligned words\<close>


lemma aligned_0 [simp]: "aligned 0"
  by (simp add: aligned_def)



lemma aligned_META_SIZE [simp]: "aligned META_SIZE"
  by (simp add: aligned_def META_SIZE_def)


subsection \<open>The collector keeps sizes\<close>

lemmas find_free_block_induct =
  find_free_block.raw_induct [rotated 1, consumes 1, case_names step]

lemma keeps_sizes_refl [simp]: "keeps_sizes s s"
  by (simp add: keeps_sizes_def)















subsection \<open>The allocator keeps alignment\<close>




lemma find_free_block_hdr:
  assumes "find_free_block s l c sz = Some r"
  shows "r = Inr (l', blk) \<Longrightarrow> l = 0 \<or> hdr s l \<noteq> None \<Longrightarrow>
     (l' = 0 \<or> hdr s l' \<noteq> None) \<and> (blk = 0 \<or> hdr s blk \<noteq> None)"
  using assms
proof (induction s l c sz r arbitrary: l' blk rule: find_free_block_induct)
  case (step f s l c sz r)
  show ?case
  proof (cases "c = 0")
    case True
    with step show ?thesis by auto
  next
    case False
    with step(2,3) obtain b where b: "hdr s c = Some b"
      by (cases "hdr s c") auto
    show ?thesis
    proof (cases "free_f b \<noteq> 0 \<and> sz \<le> size_f b")
      case True
      with step False b show ?thesis by auto
    next
      case n: False
      with step(2) False b have "f s c (next_f b) sz = Some r" by auto
      from step(1) [OF this step(3)] b show ?thesis by simp
    qed
  qed
qed



lemma aligned_heap_global_base [simp]:
  "aligned_heap (s\<lparr>global_base := g\<rparr>) = aligned_heap s"
  by (simp add: aligned_heap_def)

lemma aligned_heap_mem [simp]: "aligned_heap (s\<lparr>mem := m\<rparr>) = aligned_heap s"
  by (simp add: aligned_heap_def)


lemma bind_r_pairE:
  assumes "bind_r m (\<lambda>(a, b). f a b) = Some (Inr y)"
  obtains a b where "m = Some (Inr (a, b))" and "f a b = Some (Inr y)"
  using assms by (auto simp: bind_r_eq_Inr)




subsection \<open>A run from the empty arena\<close>


section \<open>Alignment of sizes and of returned pointers\<close>



section \<open>Well-formed heaps are preserved\<close>

text \<open>
  From a well-formed heap every allocator call and every collection returns (it neither
  loops nor reads a missing header of the list), and the heap it leaves is well formed
  again. So the hypotheses \<open>chain\<close> and \<open>ordered\<close> of the statements above hold in every
  state a program reaches from the empty arena, as long as its requests are small enough
  for the size arithmetic of lines 166 and 185 not to wrap.
\<close>

lemma chain_path: "chain h p as = path h p as 0"
  by (induction as arbitrary: p) (auto split: option.splits)

lemma path_append:
  "path h p (as @ bs) q \<longleftrightarrow> (\<exists>r. path h p as r \<and> path h r bs q)"
  by (induction as arbitrary: p) (auto split: option.splits)

lemma path_upd_other:
  "(\<And>a. a \<in> set as \<Longrightarrow> map_option next_f (h' a) = map_option next_f (h a)) \<Longrightarrow>
   path h' p as q = path h p as q"
proof (induction as arbitrary: p)
  case Nil
  show ?case by simp
next
  case (Cons a as)
  from Cons.prems [of a] have "map_option next_f (h' a) = map_option next_f (h a)" by simp
  moreover from Cons.prems have "\<And>r. path h' r as q = path h r as q"
    by (intro Cons.IH) simp
  ultimately show ?case
    by (cases "h a"; cases "h' a") auto
qed

lemma path_hdr: "path h p as q \<Longrightarrow> a \<in> set as \<Longrightarrow> \<exists>b. h a = Some b"
  by (induction as arbitrary: p) (auto split: option.splits)

lemma ordered_append:
  "ordered h lim (as @ bs) \<longleftrightarrow>
     ordered h (case bs of [] \<Rightarrow> lim | b # _ \<Rightarrow> unat b) as \<and> ordered h lim bs"
proof (induction as)
  case Nil
  show ?case by simp
next
  case (Cons a as)
  show ?case
  proof (cases as)
    case Nil
    then show ?thesis by (cases bs) (auto split: option.splits)
  next
    case (Cons c cs)
    with Cons.IH show ?thesis by (auto split: option.splits)
  qed
qed

lemma ordered_mono: "ordered h lim as \<Longrightarrow> lim \<le> lim' \<Longrightarrow> ordered h lim' as"
  by (induction h lim as rule: ordered.induct) (auto split: option.splits)

text \<open>
  The first-fit search of lines 129-136 on a well-formed list: it returns, with the first
  free block that is large enough, or with \<open>NULL\<close> and the last block of the list.
\<close>

lemma find_free_block_chain:
  assumes "chain (hdr s) p bs"
  shows "\<exists>l' blk. find_free_block s l p sz = Some (Inr (l', blk)) \<and>
     (if blk = 0 then l' = (if bs = [] then l else last bs)
      else \<exists>pre post b. bs = pre @ blk # post \<and> l' = (if pre = [] then l else last pre) \<and>
             hdr s blk = Some b \<and> free_f b \<noteq> 0 \<and> sz \<le> size_f b)"
  using assms
proof (induction bs arbitrary: p l)
  case Nil
  then have "find_free_block s l p sz = Some (Inr (l, 0))"
    by (subst find_free_block.simps) simp
  then show ?case by simp
next
  case (Cons a bs)
  then obtain b where p: "p = a" "a \<noteq> 0" and b: "hdr s a = Some b"
    and ch: "chain (hdr s) (next_f b) bs"
    by (auto split: option.splits)
  show ?case
  proof (cases "free_f b \<noteq> 0 \<and> sz \<le> size_f b")
    case True
    with p b have "find_free_block s l p sz = Some (Inr (l, a))"
      by (subst find_free_block.simps) simp
    moreover have "\<exists>pre post b'. a # bs = pre @ a # post \<and> l = (if pre = [] then l else last pre) \<and>
        hdr s a = Some b' \<and> free_f b' \<noteq> 0 \<and> sz \<le> size_f b'"
      using True b by (intro exI [of _ "[]"] exI [of _ bs] exI [of _ b]) simp
    ultimately show ?thesis using p by auto
  next
    case False
    with p b have step: "find_free_block s l p sz = find_free_block s a (next_f b) sz"
      by (subst find_free_block.simps) auto
    from Cons.IH [OF ch, of a] obtain l' blk where
      r: "find_free_block s a (next_f b) sz = Some (Inr (l', blk))"
      and c: "if blk = 0 then l' = (if bs = [] then a else last bs)
          else \<exists>pre post b. bs = pre @ blk # post \<and> l' = (if pre = [] then a else last pre) \<and>
             hdr s blk = Some b \<and> free_f b \<noteq> 0 \<and> sz \<le> size_f b"
      by blast
    show ?thesis
    proof (cases "blk = 0")
      case True
      with c have "l' = (if a # bs = [] then l else last (a # bs))" by simp
      with step r True show ?thesis by simp
    next
      case nz: False
      with c obtain pre post b' where d: "bs = pre @ blk # post"
        and l': "l' = (if pre = [] then a else last pre)"
        and f: "hdr s blk = Some b'" "free_f b' \<noteq> 0" "sz \<le> size_f b'"
        by auto
      have "\<exists>pre' post' b'. a # bs = pre' @ blk # post' \<and>
          l' = (if pre' = [] then l else last pre') \<and>
          hdr s blk = Some b' \<and> free_f b' \<noteq> 0 \<and> sz \<le> size_f b'"
        using d l' f
        by (intro exI [of _ "a # pre"] exI [of _ post] exI [of _ b']) simp
      with step r nz show ?thesis by simp
    qed
  qed
qed

lemma heap_ok_not_brk:
  assumes "heap_ok s as" and "a \<in> set as"
  shows "a \<noteq> brk s" and "32 \<le> unat (brk s)"
proof -
  from assms(1) have "ordered (hdr s) (unat (brk s)) as" by (simp add: heap_ok_def)
  from ordered_below [OF this assms(2)]
  obtain b :: block_meta where "unat a + 32 + unat (size_f b) \<le> unat (brk s)" by blast
  then show "a \<noteq> brk s" and "32 \<le> unat (brk s)" by auto
qed

lemma chain_snoc:
  assumes "chain h p (pre @ [l])" and "h l = Some lb" and "nb \<notin> set (pre @ [l])" and "nb \<noteq> 0"
    and "next_f new = 0"
  shows "chain (h(l \<mapsto> lb\<lparr>next_f := nb\<rparr>, nb \<mapsto> new)) p (pre @ [l] @ [nb])"
proof -
  let ?h' = "h(l \<mapsto> lb\<lparr>next_f := nb\<rparr>, nb \<mapsto> new)"
  from assms(1) have d: "distinct (pre @ [l])" by (rule chain_distinct)
  from assms(1) obtain r where 1: "path h p pre r" and 2: "path h r [l] 0"
    by (auto simp: chain_path path_append)
  from 2 have r: "r = l" "l \<noteq> 0" by auto
  have "path ?h' p pre r = path h p pre r"
    using d assms(3) by (intro path_upd_other) auto
  with 1 have 3: "path ?h' p pre l" by (simp add: r)
  have 4: "path ?h' l [l] nb" using r assms(3) by auto
  have 5: "path ?h' nb [nb] 0" using assms(4,5) by simp
  from 3 4 5 show ?thesis
    unfolding chain_path path_append by blast
qed

text \<open>
  \<open>request_space\<close> on a well-formed heap: it returns or aborts; the block it returns
  lies at the old break and is appended to the list.
\<close>

lemma request_space_ok:
  assumes ok: "heap_ok s as" and sz: "unat sz + 40 < 2 ^ 64"
    and l: "l = (if as = [] then 0 else last as)"
  shows "\<exists>r. request_space s l sz = Some r \<and>
     (\<forall>blk s'. r = Inr (blk, s') \<longrightarrow>
        global_base s' = global_base s \<and>
        (if blk = 0 then heap_ok s' as
         else blk = brk s \<and>
           chain (hdr s') (if as = [] then blk else global_base s) (as @ [blk]) \<and>
           ordered (hdr s') (unat (brk s')) (as @ [blk]) \<and>
           hdr s' blk =
             Some \<lparr>size_f = sz, next_f = 0, free_f = 0, marked = 1, magic = 0x12345678\<rparr>))"
proof -
  obtain req s1 where sb: "sbrk s (sz + META_SIZE) = (req, s1)" by fastforce
  have s0: "sbrk s 0 = (brk s, s)" by (simp add: sbrk_def)
  let ?new = "\<lparr>size_f = sz, next_f = 0, free_f = 0, marked = 1, magic = 0x12345678\<rparr>"
  let ?link = "if l \<noteq> 0 then
      (case hdr s1 l of None \<Rightarrow> Some (Inl Fault)
       | Some lb \<Rightarrow> Some (Inr (set_hdr s1 l (lb\<lparr>next_f := brk s\<rparr>))))
    else Some (Inr s1)"
  have rs: "request_space s l sz =
      (if brk s \<noteq> req then Some (Inl Abort)
       else if req = - 1 then Some (Inr (0, s1))
       else bind_r ?link (\<lambda>s2. Some (Inr (brk s, set_hdr s2 (brk s) ?new))))"
    by (simp add: request_space_def s0 sb Let_def)
  have n: "unat (sz + META_SIZE) = unat sz + 32"
    using sz by (simp add: unat_word_ariths)
  then have nz: "sz + META_SIZE \<noteq> 0" by (metis add_is_0 unat_0 zero_neq_numeral)
  show ?thesis
  proof (cases "unat (brk s) + unat (sz + META_SIZE) \<le> unat (brk_limit s)")
    case False
    with sb nz have "req = - 1" "s1 = s" by (simp_all add: sbrk_def)
    with rs ok show ?thesis by auto
  next
    case True
    with sb have req: "req = brk s" and s1: "s1 = s\<lparr>brk := brk s + (sz + META_SIZE)\<rparr>"
      by (auto simp add: sbrk_def)
    have lim: "unat (brk s) + (unat sz + 32) < 2 ^ 64"
      using True n unat_lt_2p64 [of "brk_limit s"] by simp
    then have b1: "unat (brk s1) = unat (brk s) + 32 + unat sz"
      using n by (simp add: s1 unat_word_ariths)
    have ne: "brk s \<noteq> - 1"
    proof
      assume "brk s = - 1"
      then have "unat (brk s) = 2 ^ 64 - 1"
        by (simp add: unsigned_minus_1_eq_mask mask_eq_exp_minus_1)
      with lim show False by simp
    qed
    show ?thesis
    proof (cases "as = []")
      case True
      with l have l0: "l = 0" by simp
      from ok True have gb: "global_base s = 0" by (simp add: heap_ok_def)
      have r: "request_space s l sz = Some (Inr (brk s, set_hdr s1 (brk s) ?new))"
        using rs req ne l0 by simp
      show ?thesis
      proof (cases "brk s = 0")
        case z: True
        with r gb True show ?thesis by (simp add: heap_ok_def s1)
      next
        case False
        with r True b1 show ?thesis by (simp add: s1)
      qed
    next
      case False
      then obtain pre where as: "as = pre @ [l]"
        using l by (metis append_butlast_last_id)
      from ok have ch: "chain (hdr s) (global_base s) as"
        and ord: "ordered (hdr s) (unat (brk s)) as"
        by (simp_all add: heap_ok_def)
      have lin: "l \<in> set as" using as by simp
      with ch obtain lb where lb: "hdr s l = Some lb" by (auto dest: chain_hdr)
      from ch as have l0: "l \<noteq> 0" by (auto simp: chain_path path_append)
      have nb: "brk s \<notin> set as" "brk s \<noteq> 0"
        using heap_ok_not_brk [OF ok] lin by fastforce+
      let ?s' = "set_hdr (set_hdr s1 l (lb\<lparr>next_f := brk s\<rparr>)) (brk s) ?new"
      have r: "request_space s l sz = Some (Inr (brk s, ?s'))"
        using rs req ne l0 lb by (simp add: s1)
      have h': "hdr ?s' = (hdr s)(l \<mapsto> lb\<lparr>next_f := brk s\<rparr>, brk s \<mapsto> ?new)"
        by (simp add: s1)
      have "chain (hdr ?s') (global_base s) (pre @ [l] @ [brk s])"
        unfolding h' using ch lb nb by (intro chain_snoc) (simp_all add: as)
      then have c': "chain (hdr ?s') (global_base s) (as @ [brk s])"
        by (simp add: as)
      have "ordered (hdr ?s') (unat (brk s)) as = ordered (hdr s) (unat (brk s)) as"
        unfolding h' using nb lb by (intro ordered_upd_size) auto
      with ord have "ordered (hdr ?s') (unat (brk s)) as" by simp
      moreover have "ordered (hdr ?s') (unat (brk ?s')) [brk s]"
        using b1 by (simp add: s1)
      ultimately have o': "ordered (hdr ?s') (unat (brk ?s')) (as @ [brk s])"
        by (simp add: ordered_append)
      from r c' o' nb False show ?thesis by (simp add: s1)
    qed
  qed
qed

lemma chain_split_at:
  assumes "chain h p (pre @ blk # post)" and "h blk = Some b"
  shows "path h p pre blk" and "path h (next_f b) post 0" and "blk \<noteq> 0"
  using assms by (auto simp: chain_path path_append)

lemma ordered_pre_lt:
  assumes "ordered h lim (pre @ blk # post)" and "a \<in> set pre"
  shows "unat a < unat blk"
proof -
  from assms(1) have "ordered h (unat blk) pre" by (simp add: ordered_append)
  from ordered_below [OF this assms(2)] show ?thesis by auto
qed

text \<open>
  Lines 183-204 on a block of a well-formed heap: the remainder of a split is a new block
  of the list, between the block and its successor.
\<close>

lemma reuse_block_ok:
  assumes ok: "heap_ok s (pre @ blk # post)" and b: "hdr s blk = Some b"
    and sz: "unat sz + 40 < 2 ^ 64"
  shows "\<exists>s' as'. reuse_block s blk sz = Some (Inr s') \<and> heap_ok s' as' \<and>
     global_base s' = global_base s \<and> brk s' = brk s \<and> brk_limit s' = brk_limit s \<and>
     (\<exists>b'. hdr s' blk = Some b' \<and> free_f b' = 0 \<and> magic b' = 0x77777777)"
proof -
  let ?as = "pre @ blk # post"
  from ok have ch: "chain (hdr s) (global_base s) ?as"
    and ord: "ordered (hdr s) (unat (brk s)) ?as"
    by (simp_all add: heap_ok_def)
  show ?thesis
  proof (cases "sz + META_SIZE + MIN_SIZE \<le> size_f b")
    case False
    let ?s' = "set_hdr s blk (b\<lparr>free_f := 0, marked := 1, magic := 0x77777777\<rparr>)"
    have r: "reuse_block s blk sz = Some (Inr ?s')"
      using False b by (simp add: reuse_block_def)
    have "chain (hdr ?s') (global_base s) ?as = chain (hdr s) (global_base s) ?as"
      using b by (intro chain_upd_next) (auto simp: set_hdr_def)
    moreover have "ordered (hdr ?s') (unat (brk s)) ?as = ordered (hdr s) (unat (brk s)) ?as"
      using b by (intro ordered_upd_size) (auto simp: set_hdr_def)
    ultimately have "heap_ok ?s' ?as" using ch ord by (simp add: heap_ok_def set_hdr_def)
    with r show ?thesis by (auto simp: set_hdr_def)
  next
    case True
    define nb where "nb = blk + META_SIZE + sz"
    define rem where "rem = size_f b - sz - META_SIZE"
    let ?b' = "\<lparr>size_f = sz, next_f = nb, free_f = 0, marked = 1, magic = 0x77777777\<rparr>"
    let ?n = "\<lparr>size_f = rem, next_f = next_f b, free_f = 1, marked = 0, magic = 0x22222222\<rparr>"
    let ?h' = "(hdr s)(blk \<mapsto> ?b', nb \<mapsto> ?n)"
    have u40: "unat (sz + META_SIZE + MIN_SIZE) = unat sz + 40"
      using sz by (simp add: unat_word_ariths META_SIZE_def MIN_SIZE_def)
    with True have le: "unat sz + 40 \<le> unat (size_f b)" by (simp add: word_le_nat_alt)
    have "ordered (hdr s) (unat (brk s)) (blk # post)" using ord by (simp add: ordered_append)
    from ordered_hd [OF this] b
    have e: "unat blk + 32 + unat (size_f b) \<le> (case post of [] \<Rightarrow> unat (brk s) | c # _ \<Rightarrow> unat c)"
      by simp
    have "(case post of [] \<Rightarrow> unat (brk s) | c # _ \<Rightarrow> unat c) < 2 ^ 64"
      using unat_lt_2p64 by (auto split: list.split)
    with e have bound: "unat blk + 32 + unat (size_f b) < 2 ^ 64" by simp
    have unb: "unat nb = unat blk + 32 + unat sz"
      unfolding nb_def using bound le by (intro unat_end_no_wrap) simp
    have urem: "unat rem = unat (size_f b) - unat sz - 32"
    proof -
      have "sz \<le> size_f b" using le by (simp add: word_le_nat_alt)
      then have 1: "unat (size_f b - sz) = unat (size_f b) - unat sz" by (rule unat_sub)
      have "META_SIZE \<le> size_f b - sz" using le 1 by (simp add: word_le_nat_alt META_SIZE_def)
      then have "unat (size_f b - sz - META_SIZE) = unat (size_f b - sz) - unat META_SIZE"
        by (rule unat_sub)
      with 1 show ?thesis by (simp add: rem_def META_SIZE_def)
    qed
    have nb_blk: "nb \<noteq> blk" using unb by auto
    have nb0: "nb \<noteq> 0" using unb by auto
    have nb_pre: "nb \<notin> set pre"
    proof
      assume "nb \<in> set pre"
      from ordered_pre_lt [OF ord this] unb show False by simp
    qed
    have nb_post: "nb \<notin> set post"
    proof
      assume "nb \<in> set post"
      from ordered_later [OF \<open>ordered (hdr s) (unat (brk s)) (blk # post)\<close> this] b unb le
      show False by auto
    qed
    from ch have d: "distinct ?as" by (rule chain_distinct)
    have eqb: "b\<lparr>size_f := sz, next_f := nb, free_f := 0, marked := 1, magic := 0x77777777\<rparr> = ?b'"
      by (cases b) simp
    have tw: "(hdr s)(nb \<mapsto> ?n, blk \<mapsto> ?b') = ?h'"
      using nb_blk by (simp add: fun_upd_twist)
    have r: "reuse_block s blk sz = Some (Inr (s\<lparr>hdr := ?h'\<rparr>))"
      using True b nb_blk
      by (simp add: reuse_block_def Let_def set_hdr_def nb_def [symmetric] rem_def [symmetric]
          eqb tw)
    note sp = chain_split_at [OF ch b]
    have p1: "path ?h' (global_base s) pre blk"
    proof -
      have "path ?h' (global_base s) pre blk = path (hdr s) (global_base s) pre blk"
        using d nb_pre by (intro path_upd_other) auto
      with sp(1) show ?thesis by simp
    qed
    have p2: "path ?h' (next_f b) post 0"
    proof -
      have "path ?h' (next_f b) post 0 = path (hdr s) (next_f b) post 0"
        using d nb_post by (intro path_upd_other) auto
      with sp(2) show ?thesis by simp
    qed
    have p3: "path ?h' blk [blk, nb] (next_f b)"
      using sp(3) nb0 nb_blk by simp
    have c': "chain ?h' (global_base s) (pre @ [blk, nb] @ post)"
      unfolding chain_path path_append using p1 p2 p3 by blast
    have o1: "ordered ?h' (unat blk) pre"
    proof -
      have "ordered ?h' (unat blk) pre = ordered (hdr s) (unat blk) pre"
        using d nb_pre by (intro ordered_upd_size) auto
      with ord show ?thesis by (simp add: ordered_append)
    qed
    have o3: "ordered ?h' (unat (brk s)) post"
    proof -
      have "ordered ?h' (unat (brk s)) post = ordered (hdr s) (unat (brk s)) post"
        using d nb_post by (intro ordered_upd_size) auto
      moreover have "ordered (hdr s) (unat (brk s)) post"
        using \<open>ordered (hdr s) (unat (brk s)) (blk # post)\<close> by (rule ordered_tl)
      ultimately show ?thesis by simp
    qed
    have o2: "ordered ?h' (unat (brk s)) (nb # post)"
      using o3 e unb urem le by (intro ordered_Cons [where b = ?n and cs = post]) simp_all
    have o4: "ordered ?h' (unat (brk s)) (blk # nb # post)"
      using o2 unb nb_blk by (simp add: META_SIZE_def)
    have o': "ordered ?h' (unat (brk s)) (pre @ [blk, nb] @ post)"
      using o1 o4 by (simp add: ordered_append)
    from c' o' have "heap_ok (s\<lparr>hdr := ?h'\<rparr>) (pre @ [blk, nb] @ post)"
      by (simp add: heap_ok_def)
    with r nb_blk show ?thesis by auto
  qed
qed

lemma returns_simps [simp]:
  "returns None Q = False"
  "returns (Some (Inl e)) Q = True"
  "returns (Some (Inr x)) Q = Q x"
  by (simp_all add: returns_def)

lemma returns_bind:
  assumes "returns m P" and "\<And>x. P x \<Longrightarrow> returns (f x) Q"
  shows "returns (bind_r m f) Q"
proof (cases m)
  case None
  with assms(1) show ?thesis by simp
next
  case (Some r)
  with assms show ?thesis by (cases r) simp_all
qed

lemma returns_weaken:
  assumes "returns m P" and "\<And>x. P x \<Longrightarrow> Q x"
  shows "returns m Q"
proof (cases m)
  case None
  with assms(1) show ?thesis by simp
next
  case (Some r)
  with assms show ?thesis by (cases r) simp_all
qed

lemma rounded_small:
  assumes "small_request n"
  shows "unat ((n + 7) AND NOT 7) + 40 < 2 ^ 64"
proof -
  from assms have "unat (n + 7) = unat n + 7"
    by (simp add: small_request_def unat_word_ariths)
  moreover have "(n + 7) AND NOT 7 \<le> n + 7" by (rule word_and_le2)
  then have "unat ((n + 7) AND NOT 7) \<le> unat (n + 7)" by (simp only: word_le_nat_alt)
  ultimately show ?thesis using assms by (simp add: small_request_def)
qed

lemma request_space_returns:
  assumes "heap_ok s as" and "unat sz + 40 < 2 ^ 64"
    and "l = (if as = [] then 0 else last as)"
  shows "returns (request_space s l sz) (\<lambda>(blk, s').
     global_base s' = global_base s \<and>
     (if blk = 0 then heap_ok s' as
      else chain (hdr s') (if as = [] then blk else global_base s) (as @ [blk]) \<and>
           ordered (hdr s') (unat (brk s')) (as @ [blk])))"
proof -
  from request_space_ok [OF assms] obtain r where
    r: "request_space s l sz = Some r"
    and p: "\<forall>blk s'. r = Inr (blk, s') \<longrightarrow>
        global_base s' = global_base s \<and>
        (if blk = 0 then heap_ok s' as
         else blk = brk s \<and>
           chain (hdr s') (if as = [] then blk else global_base s) (as @ [blk]) \<and>
           ordered (hdr s') (unat (brk s')) (as @ [blk]) \<and>
           hdr s' blk =
             Some \<lparr>size_f = sz, next_f = 0, free_f = 0, marked = 1, magic = 0x12345678\<rparr>)"
    by blast
  show ?thesis
  proof (cases r)
    case (Inl e)
    with r show ?thesis by simp
  next
    case (Inr x)
    obtain blk s' where x: "x = (blk, s')" by (cases x)
    have rx: "r = Inr (blk, s')" using Inr x by simp
    note q = p [rule_format, OF rx]
    show ?thesis unfolding r rx using q
      by (cases "blk = 0") (auto simp del: chain.simps ordered.simps split: if_splits)
  qed
qed

lemma malloc_ok:
  assumes ok: "heap_ok s as" and n: "small_request n"
  shows "returns (malloc s n) (\<lambda>(p, s'). \<exists>as'. heap_ok s' as')"
proof (cases "n = 0")
  case True
  with ok show ?thesis by (auto simp: malloc_def)
next
  case False
  define sz where "sz = (n + 7) AND NOT 7"
  have sz: "unat sz + 40 < 2 ^ 64" unfolding sz_def using n by (rule rounded_small)
  from ok have ch: "chain (hdr s) (global_base s) as" by (simp add: heap_ok_def)
  show ?thesis
  proof (cases "global_base s = 0")
    case True
    with ch have e: "as = []" by (cases as) auto
    have m: "malloc s n = bind_r (request_space s 0 sz) (\<lambda>(block, s1).
        if block = 0 then Some (Inr (0, s1))
        else Some (Inr (block + META_SIZE, s1\<lparr>global_base := block\<rparr>)))"
      using False True by (simp add: malloc_def Let_def sz_def cong: if_cong)
    show ?thesis unfolding m
    proof (rule returns_bind [OF request_space_returns [OF ok sz]])
      show "0 = (if as = [] then 0 else last as)" using e by simp
    next
      fix x :: "addr \<times> heap"
      obtain blk s1 where x: "x = (blk, s1)" by (cases x)
      assume "case x of (blk, s') \<Rightarrow> global_base s' = global_base s \<and>
        (if blk = 0 then heap_ok s' as
         else chain (hdr s') (if as = [] then blk else global_base s) (as @ [blk]) \<and>
              ordered (hdr s') (unat (brk s')) (as @ [blk]))"
      then have c: "if blk = 0 then heap_ok s1 as
         else chain (hdr s1) (if as = [] then blk else global_base s) (as @ [blk]) \<and>
              ordered (hdr s1) (unat (brk s1)) (as @ [blk])"
        unfolding x prod.case by blast
      have "\<exists>as'. heap_ok (if blk = 0 then s1 else s1\<lparr>global_base := blk\<rparr>) as'"
      proof (cases "blk = 0")
        case True
        with c show ?thesis by auto
      next
        case False
        with c e have "heap_ok (s1\<lparr>global_base := blk\<rparr>) [blk]"
          by (simp add: heap_ok_def)
        with False show ?thesis by auto
      qed
      then show "returns (case x of (block, s1) \<Rightarrow>
          if block = 0 then Some (Inr (0, s1))
          else Some (Inr (block + META_SIZE, s1\<lparr>global_base := block\<rparr>)))
          (\<lambda>(p, s'). \<exists>as'. heap_ok s' as')"
        unfolding x by (cases "blk = 0") simp_all
    qed
  next
    case nz: False
    with ch have ne: "as \<noteq> []" by auto
    have m: "malloc s n = bind_r (find_free_block s 0 (global_base s) sz) (\<lambda>(last_b, block).
        if block = 0 then
          bind_r (request_space s last_b sz) (\<lambda>(block, s1).
            if block = 0 then Some (Inr (0, s1))
            else Some (Inr (block + META_SIZE, s1)))
        else bind_r (reuse_block s block sz) (\<lambda>s1. Some (Inr (block + META_SIZE, s1))))"
      using False nz by (simp add: malloc_def Let_def sz_def cong: if_cong)
    from find_free_block_chain [OF ch, of 0 sz] obtain l blk where
      f: "find_free_block s 0 (global_base s) sz = Some (Inr (l, blk))"
      and c: "if blk = 0 then l = (if as = [] then 0 else last as)
           else \<exists>pre post b. as = pre @ blk # post \<and> l = (if pre = [] then 0 else last pre) \<and>
                  hdr s blk = Some b \<and> free_f b \<noteq> 0 \<and> sz \<le> size_f b"
      by blast
    show ?thesis
    proof (cases "blk = 0")
      case True
      with c have l: "l = (if as = [] then 0 else last as)" by simp
      have m': "malloc s n = bind_r (request_space s l sz) (\<lambda>(block, s1).
            if block = 0 then Some (Inr (0, s1))
            else Some (Inr (block + META_SIZE, s1)))"
        unfolding m f using True by simp
      show ?thesis unfolding m'
      proof (rule returns_bind [OF request_space_returns [OF ok sz l]])
        fix x :: "addr \<times> heap"
        obtain b2 s1 where x: "x = (b2, s1)" by (cases x)
        assume "case x of (blk, s') \<Rightarrow> global_base s' = global_base s \<and>
          (if blk = 0 then heap_ok s' as
           else chain (hdr s') (if as = [] then blk else global_base s) (as @ [blk]) \<and>
                ordered (hdr s') (unat (brk s')) (as @ [blk]))"
        then have g: "global_base s1 = global_base s"
          and c: "if b2 = 0 then heap_ok s1 as
           else chain (hdr s1) (if as = [] then b2 else global_base s) (as @ [b2]) \<and>
                ordered (hdr s1) (unat (brk s1)) (as @ [b2])"
          unfolding x prod.case by blast+
        have "\<exists>as'. heap_ok s1 as'"
        proof (cases "b2 = 0")
          case True
          with c show ?thesis by auto
        next
          case False
          with c ne g have "heap_ok s1 (as @ [b2])"
            by (simp add: heap_ok_def del: chain.simps ordered.simps)
          then show ?thesis by auto
        qed
        then show "returns (case x of (block, s1) \<Rightarrow>
            if block = 0 then Some (Inr (0, s1))
            else Some (Inr (block + META_SIZE, s1)))
            (\<lambda>(p, s'). \<exists>as'. heap_ok s' as')"
          unfolding x by (cases "b2 = 0") simp_all
      qed
    next
      case False
      with c obtain pre post and b :: block_meta where
        as: "as = pre @ blk # post" and b: "hdr s blk = Some b"
        by auto
      have m': "malloc s n =
          bind_r (reuse_block s blk sz) (\<lambda>s1. Some (Inr (blk + META_SIZE, s1)))"
        unfolding m f using False by simp
      from reuse_block_ok [OF ok [unfolded as] b sz] obtain s' as' where
        "reuse_block s blk sz = Some (Inr s')" and "heap_ok s' as'"
        by blast
      then show ?thesis unfolding m' by auto
    qed
  qed
qed

lemma free_ok:
  assumes ok: "heap_ok s as"
  shows "returns (free s p) (\<lambda>s'. \<exists>as'. heap_ok s' as')"
proof (cases "p = 0")
  case True
  with ok show ?thesis by (auto simp: free_def)
next
  case False
  show ?thesis
  proof (cases "hdr s (p - META_SIZE)")
    case None
    with False show ?thesis by (simp add: free_def)
  next
    case (Some b)
    let ?s1 = "set_hdr s (p - META_SIZE) (b\<lparr>free_f := 1, marked := 0, magic := 0x55555555\<rparr>)"
    have "chain (hdr ?s1) (global_base s) as = chain (hdr s) (global_base s) as"
      using Some by (intro chain_upd_next) auto
    with ok have ch: "chain (hdr ?s1) (global_base ?s1) as" by (simp add: heap_ok_def)
    have "ordered (hdr ?s1) (unat (brk s)) as = ordered (hdr s) (unat (brk s)) as"
      using Some by (intro ordered_upd_size) auto
    with ok have ord: "ordered (hdr ?s1) (unat (brk s)) as" by (simp add: heap_ok_def)
    from merge_free_blocks_total [OF ch unat_lt_2p64 [of "brk s"]] ord
    obtain h' bs' where
      mg: "merge_free_blocks ?s1 (global_base ?s1) = Some (Inr (?s1\<lparr>hdr := h'\<rparr>))"
      and "chain h' (global_base ?s1) bs'" and "ordered h' (unat (brk s)) bs'"
      by blast
    then have "heap_ok (?s1\<lparr>hdr := h'\<rparr>) bs'" by (simp add: heap_ok_def)
    then have "returns (merge_free_blocks ?s1 (global_base ?s1)) (\<lambda>s'. \<exists>as'. heap_ok s' as')"
      unfolding mg by auto
    then show ?thesis using False Some by (simp add: free_def Let_def)
  qed
qed

lemma gc_ok:
  assumes ok: "heap_ok s as"
  shows "returns (gc s d k) (\<lambda>s'. heap_ok s' as)"
proof -
  from ok have ch: "chain (hdr s) (global_base s) as" by (simp add: heap_ok_def)
  let ?H = "\<lambda>a. if a \<in> set as
        then map_option (\<lambda>b. sweep_hdr (b\<lparr>marked := gc_marks_m s as d k a\<rparr>)) (hdr s a)
        else hdr s a"
  have "chain ?H (global_base s) as = chain (hdr s) (global_base s) as"
    by (intro chain_upd_next) (auto simp: sweep_hdr_def option.map_comp comp_def
        intro!: option.map_cong)
  moreover have "ordered ?H (unat (brk s)) as = ordered (hdr s) (unat (brk s)) as"
    by (intro ordered_upd_size) (auto simp: sweep_hdr_def option.map_comp comp_def
        intro!: option.map_cong)
  ultimately have "heap_ok (s\<lparr>hdr := ?H\<rparr>) as" using ok by (simp add: heap_ok_def)
  then show ?thesis by (simp add: gc_closed [OF ch])
qed

lemma realloc_ok:
  assumes ok: "heap_ok s as" and n: "small_request n"
  shows "returns (realloc s p n) (\<lambda>(q, s'). \<exists>as'. heap_ok s' as')"
proof -
  let ?Q = "\<lambda>(q :: addr, s'). \<exists>as'. heap_ok s' as'"
  consider (null) "p = 0" | (zero) "p \<noteq> 0" "n = 0"
    | (nohdr) "p \<noteq> 0" "n \<noteq> 0" "hdr s (p - META_SIZE) = None"
    | (hdr) b where "p \<noteq> 0" "n \<noteq> 0" "hdr s (p - META_SIZE) = Some b"
    by (cases "hdr s (p - META_SIZE)") auto
  then show ?thesis
  proof cases
    case null
    with malloc_ok [OF ok n] show ?thesis by (simp add: realloc_def)
  next
    case zero
    have "returns (bind_r (free s p) (\<lambda>s1. Some (Inr (0, s1)))) ?Q"
      by (rule returns_bind [OF free_ok [OF ok]]) simp
    with zero show ?thesis by (simp add: realloc_def)
  next
    case nohdr
    then show ?thesis by (simp add: realloc_def)
  next
    case hdr
    show ?thesis
    proof (cases "n \<le> size_f b")
      case True
      with hdr ok show ?thesis by (auto simp: realloc_def)
    next
      case False
      let ?k = "\<lambda>(new_ptr, s1).
              if new_ptr \<noteq> 0 then
                (case hdr s1 (p - META_SIZE) of
                   None \<Rightarrow> Some (Inl Fault)
                 | Some b1 \<Rightarrow>
                     bind_r (free (s1\<lparr>mem := memcpy (mem s1) new_ptr p (size_f b1)\<rparr>) p)
                       (\<lambda>s2. Some (Inr (new_ptr, s2))))
              else Some (Inr (new_ptr, s1))"
      have r: "realloc s p n = bind_r (malloc s n) ?k"
        using hdr False by (simp add: realloc_def Let_def)
      show ?thesis unfolding r
      proof (rule returns_bind [OF malloc_ok [OF ok n]])
        fix x :: "addr \<times> heap"
        obtain q s1 where x: "x = (q, s1)" by (cases x)
        assume "case x of (p, s') \<Rightarrow> \<exists>as'. heap_ok s' as'"
        then obtain as1 where ok1: "heap_ok s1 as1" unfolding x by auto
        show "returns (?k x) ?Q"
        proof (cases "q = 0")
          case True
          with ok1 show ?thesis unfolding x by auto
        next
          case q: False
          show ?thesis
          proof (cases "hdr s1 (p - META_SIZE)")
            case None
            with q show ?thesis unfolding x by simp
          next
            case (Some b1)
            have ok2: "heap_ok (s1\<lparr>mem := memcpy (mem s1) q p (size_f b1)\<rparr>) as1"
              using ok1 by (simp add: heap_ok_def)
            have "returns (bind_r (free (s1\<lparr>mem := memcpy (mem s1) q p (size_f b1)\<rparr>) p)
                       (\<lambda>s2. Some (Inr (q, s2)))) ?Q"
              by (rule returns_bind [OF free_ok [OF ok2]]) simp
            with q Some show ?thesis unfolding x by simp
          qed
        qed
      qed
    qed
  qed
qed

text \<open>
  Every sequence of operations with small requests returns, from every well-formed heap,
  and leaves a well-formed heap.
\<close>

lemma run_ops_ok:
  assumes "heap_ok s as" and "small_requests ops"
  shows "returns (run_ops s ops) (\<lambda>(s', ps). \<exists>as'. heap_ok s' as')"
  using assms
proof (induction ops arbitrary: s as)
  case Nil
  then show ?case by auto
next
  case (Cons x ops)
  let ?Q = "\<lambda>(s' :: heap, ps :: addr list). \<exists>as'. heap_ok s' as'"
  have tl: "small_requests ops" using Cons.prems(2) by (cases x) simp_all
  have step: "returns (bind_r (run_ops s1 ops) (\<lambda>(s2, ps). Some (Inr (s2, q # ps)))) ?Q"
    if "heap_ok s1 as1" for s1 as1 q
    by (rule returns_bind [OF Cons.IH [OF that tl]]) auto
  show ?case
  proof (cases x)
    case (Malloc n)
    with Cons.prems(2) have n: "small_request n" by simp
    have "returns (bind_r (malloc s n) (\<lambda>(p, s1).
       bind_r (run_ops s1 ops) (\<lambda>(s2, ps). Some (Inr (s2, p # ps))))) ?Q"
      by (rule returns_bind [OF malloc_ok [OF Cons.prems(1) n]]) (auto intro: step)
    with Malloc show ?thesis by simp
  next
    case (Free p)
    have "returns (bind_r (free s p) (\<lambda>s1. run_ops s1 ops)) ?Q"
      by (rule returns_bind [OF free_ok [OF Cons.prems(1)]]) (auto intro: Cons.IH tl)
    with Free show ?thesis by simp
  next
    case (Realloc p n)
    with Cons.prems(2) have n: "small_request n" by simp
    have "returns (bind_r (realloc s p n) (\<lambda>(q, s1).
       bind_r (run_ops s1 ops) (\<lambda>(s2, ps). Some (Inr (s2, q # ps))))) ?Q"
      by (rule returns_bind [OF realloc_ok [OF Cons.prems(1) n]]) (auto intro: step)
    with Realloc show ?thesis by simp
  next
    case (Gc d k)
    have "returns (bind_r (gc s d k) (\<lambda>s1. run_ops s1 ops)) ?Q"
      by (rule returns_bind [OF gc_ok [OF Cons.prems(1)]]) (auto intro: Cons.IH tl)
    with Gc show ?thesis by simp
  next
    case (Store a v)
    have "heap_ok (s\<lparr>mem := (mem s)(a := v)\<rparr>) as"
      using Cons.prems(1) by (simp add: heap_ok_def)
    from Cons.IH [OF this tl] Store show ?thesis by simp
  qed
qed

lemma heap_empty_ok: "heap_ok heap_empty []"
  by (simp add: heap_ok_def heap_empty_def)

lemma run_ops_empty_ok:
  "small_requests ops \<Longrightarrow> returns (run_ops heap_empty ops) (\<lambda>(s', ps). \<exists>as'. heap_ok s' as')"
  by (rule run_ops_ok [OF heap_empty_ok])

section \<open>What \<open>malloc\<close> leaves alone\<close>

text \<open>
  On a well-formed heap \<open>malloc\<close> returns or aborts, it writes no payload byte, it
  changes no size, free flag or tag of a block other than the one it hands out, and the
  block it hands out is allocated and large enough.
\<close>

lemma memcpy_copies: "i < n \<Longrightarrow> memcpy m dst src n (dst + i) = m (src + i)"
  by (simp add: memcpy_def)

lemma memcpy_outside: "\<not> a - dst < n \<Longrightarrow> memcpy m dst src n a = m a"
  by (simp add: memcpy_def)

lemma request_space_frame:
  assumes "request_space s l sz = Some (Inr (blk, s'))"
  shows "mem s' = mem s \<and> (blk = 0 \<or> blk = brk s) \<and>
     (blk = 0 \<longrightarrow> brk s = 0 \<or> s' = s) \<and>
     (\<forall>a. a \<noteq> brk s \<longrightarrow>
        rel_option (\<lambda>b b'. size_f b' = size_f b \<and> free_f b' = free_f b \<and> magic b' = magic b)
          (hdr s a) (hdr s' a))"
proof -
  obtain req s1 where sb: "sbrk s (sz + META_SIZE) = (req, s1)" by fastforce
  have s0: "sbrk s 0 = (brk s, s)" by (simp add: sbrk_def)
  have m1: "mem s1 = mem s" and h1: "hdr s1 = hdr s"
    using sb by (auto simp: sbrk_def split: if_splits)
  have fail: "s1 = s" if "req = - 1" "brk s = - 1"
  proof (cases "sz + META_SIZE = 0")
    case True
    with sb show ?thesis by (auto simp: sbrk_def)
  next
    case False
    then have "0 < unat (sz + META_SIZE)" by (simp add: unat_gt_0)
    moreover have "unat (brk s) = 2 ^ 64 - 1"
      using that by (simp add: unsigned_minus_1_eq_mask mask_eq_exp_minus_1)
    moreover have "unat (brk_limit s) < 2 ^ 64" by (rule unat_lt_2p64)
    ultimately have "\<not> unat (brk s) + unat (sz + META_SIZE) \<le> unat (brk_limit s)" by simp
    with sb False show ?thesis by (simp add: sbrk_def)
  qed
  have refl: "rel_option (\<lambda>b b'. size_f b' = size_f b \<and> free_f b' = free_f b \<and> magic b' = magic b)
      x x" for x :: "block_meta option"
    by (cases x) simp_all
  from assms show ?thesis
    using m1 h1 fail refl
    by (auto simp: request_space_def s0 sb Let_def bind_r_eq_Inr set_hdr_def
        split: if_splits option.splits)
qed

lemma reuse_block_frame:
  assumes "reuse_block s blk sz = Some (Inr s')" and "hdr s blk = Some b"
  shows "mem s' = mem s \<and> global_base s' = global_base s \<and> brk s' = brk s \<and>
     (\<forall>a. a \<noteq> blk \<longrightarrow>
        (a = blk + META_SIZE + sz \<longrightarrow> \<not> sz + META_SIZE + MIN_SIZE \<le> size_f b) \<longrightarrow>
        hdr s' a = hdr s a)"
  using assms
  by (auto simp: reuse_block_def Let_def set_hdr_def split: if_splits option.splits)


lemma reuse_block_result:
  assumes "reuse_block s blk sz = Some (Inr s')" and "hdr s blk = Some b" and "sz \<le> size_f b"
    and "sz + META_SIZE + MIN_SIZE \<le> size_f b \<longrightarrow> blk + META_SIZE + sz \<noteq> blk"
  shows "\<exists>b'. hdr s' blk = Some b' \<and> free_f b' = 0 \<and> magic b' = 0x77777777 \<and> sz \<le> size_f b'"
  using assms
  by (auto simp: reuse_block_def Let_def set_hdr_def split: if_splits option.splits)

lemma merge_free_blocks_allocated:
  assumes "merge_free_blocks s cur = Some r"
  shows "r = Inr s' \<Longrightarrow> hdr s a = Some b \<Longrightarrow> free_f b = 0 \<Longrightarrow> hdr s' a = Some b"
  using assms
proof (induction s cur r arbitrary: s' rule: merge_free_blocks_induct)
  case (step mfb s cur r)
  note IH = step(1) and body = step(2) and r = step(3) and a = step(4) and fr = step(5)
  show ?case
  proof (cases "cur = 0")
    case True
    with body r a show ?thesis by simp
  next
    case False
    then obtain c where c: "hdr s cur = Some c"
      using body r by (cases "hdr s cur") auto
    show ?thesis
    proof (cases "next_f c = 0")
      case True
      with body r a False c show ?thesis by simp
    next
      case nz: False
      then obtain n where n: "hdr s (next_f c) = Some n"
        using body r False c by (cases "hdr s (next_f c)") auto
      show ?thesis
      proof (cases "free_f c \<noteq> 0 \<and> free_f n \<noteq> 0 \<and> cur + META_SIZE + size_f c = next_f c")
        case True
        with body False c nz n have m:
          "mfb (set_hdr s cur (c\<lparr>size_f := size_f c + (META_SIZE + size_f n), next_f := next_f n\<rparr>)) cur = Some r"
          by simp
        from True c a fr have "a \<noteq> cur" by auto
        with a have "hdr (set_hdr s cur
            (c\<lparr>size_f := size_f c + (META_SIZE + size_f n), next_f := next_f n\<rparr>)) a = Some b"
          by simp
        from IH [OF m r this fr] show ?thesis .
      next
        case False
        with body \<open>cur \<noteq> 0\<close> c nz n have "mfb s (next_f c) = Some r" by auto
        from IH [OF this r a fr] show ?thesis .
      qed
    qed
  qed
qed

lemma rounded_ge:
  assumes "small_request n"
  shows "n \<le> (n + 7) AND NOT 7"
proof -
  define x where "x = n + 7"
  have ux: "unat x = unat n + 7"
    using assms by (simp add: x_def small_request_def unat_word_ariths)
  have "NOT x AND (x AND 7) = 0" by (rule bit_eqI) (simp add: bit_simps)
  from disjunctive_diff_eq_and_not [OF this] have "x - (x AND 7) = x AND NOT (x AND 7)" .
  also have "\<dots> = x AND NOT 7" by (rule bit_eqI) (auto simp: bit_simps)
  finally have e: "x AND NOT 7 = x - (x AND 7)" by simp
  have le7: "unat (x AND 7) \<le> 7"
    using word_and_le1 [of x 7] by (simp add: word_le_nat_alt)
  have "x AND 7 \<le> x" by (rule word_and_le2)
  then have "unat (x - (x AND 7)) = unat x - unat (x AND 7)" by (rule unat_sub)
  with e ux le7 have "unat n \<le> unat (x AND NOT 7)" by simp
  then show ?thesis by (simp add: word_le_nat_alt x_def)
qed

lemma heap_ok_payload:
  assumes "heap_ok s as" and "a \<in> set as"
  shows "unat (a + META_SIZE) = unat a + 32" and "a + META_SIZE \<noteq> 0"
proof -
  from assms(1) have "ordered (hdr s) (unat (brk s)) as" by (simp add: heap_ok_def)
  from ordered_below [OF this assms(2)]
  obtain b :: block_meta where "unat a + 32 + unat (size_f b) \<le> unat (brk s)" by blast
  with unat_lt_2p64 [of "brk s"] have "unat a + 32 < 2 ^ 64" by simp
  then show u: "unat (a + META_SIZE) = unat a + 32"
    by (simp add: unat_word_ariths META_SIZE_def)
  show "a + META_SIZE \<noteq> 0"
  proof
    assume "a + META_SIZE = 0"
    with u show False by simp
  qed
qed

lemma split_point_fresh:
  assumes ok: "heap_ok s (pre @ blk # post)" and b: "hdr s blk = Some b"
    and sz: "unat sz + 40 < 2 ^ 64" and sp: "sz + META_SIZE + MIN_SIZE \<le> size_f b"
  shows "blk + META_SIZE + sz \<notin> set (pre @ blk # post)"
proof -
  define nb where "nb = blk + META_SIZE + sz"
  from ok have ord: "ordered (hdr s) (unat (brk s)) (pre @ blk # post)"
    by (simp add: heap_ok_def)
  have u40: "unat (sz + META_SIZE + MIN_SIZE) = unat sz + 40"
    using sz by (simp add: unat_word_ariths META_SIZE_def MIN_SIZE_def)
  with sp have le: "unat sz + 40 \<le> unat (size_f b)" by (simp add: word_le_nat_alt)
  have o2: "ordered (hdr s) (unat (brk s)) (blk # post)" using ord by (simp add: ordered_append)
  from ordered_hd [OF this] b
  have e: "unat blk + 32 + unat (size_f b) \<le> (case post of [] \<Rightarrow> unat (brk s) | c # _ \<Rightarrow> unat c)"
    by simp
  have "(case post of [] \<Rightarrow> unat (brk s) | c # _ \<Rightarrow> unat c) < 2 ^ 64"
    using unat_lt_2p64 by (auto split: list.split)
  with e have bound: "unat blk + 32 + unat (size_f b) < 2 ^ 64" by simp
  have unb: "unat nb = unat blk + 32 + unat sz"
    unfolding nb_def using bound le by (intro unat_end_no_wrap) simp
  have "nb \<noteq> blk" using unb by auto
  moreover have "nb \<notin> set pre"
  proof
    assume "nb \<in> set pre"
    from ordered_pre_lt [OF ord this] unb show False by simp
  qed
  moreover have "nb \<notin> set post"
  proof
    assume "nb \<in> set post"
    from ordered_later [OF o2 this] b unb le show False by auto
  qed
  ultimately show ?thesis by (simp add: nb_def)
qed

lemma reuse_block_Inr:
  assumes "hdr s blk = Some b"
  shows "\<exists>s'. reuse_block s blk sz = Some (Inr s')"
  using assms by (auto simp: reuse_block_def Let_def split: option.splits)

lemma request_space_no_fault:
  assumes "heap_ok s as" and "l = (if as = [] then 0 else last as)"
  shows "request_space s l sz \<noteq> Some (Inl Fault)" and "request_space s l sz \<noteq> None"
proof -
  obtain req s1 where sb: "sbrk s (sz + META_SIZE) = (req, s1)" by fastforce
  have s0: "sbrk s 0 = (brk s, s)" by (simp add: sbrk_def)
  have h1: "hdr s1 = hdr s" using sb by (auto simp: sbrk_def split: if_splits)
  have "l = 0 \<or> hdr s l \<noteq> None"
  proof (cases "as = []")
    case True
    with assms(2) show ?thesis by simp
  next
    case False
    with assms(2) have "l \<in> set as" by simp
    with assms(1) show ?thesis by (auto simp: heap_ok_def dest: chain_hdr)
  qed
  then show "request_space s l sz \<noteq> Some (Inl Fault)" and "request_space s l sz \<noteq> None"
    by (auto simp: request_space_def s0 sb Let_def h1 split: option.splits)
qed

text \<open>The three ways of \<open>malloc\<close> on a well-formed heap.\<close>

lemma malloc_cases:
  assumes ok: "heap_ok s as" and n0: "n \<noteq> 0" and sz: "sz = (n + 7) AND NOT 7"
  obtains
    (first) "as = []" and "global_base s = 0"
      and "malloc s n = bind_r (request_space s 0 sz) (\<lambda>(block, s1).
        if block = 0 then Some (Inr (0, s1))
        else Some (Inr (block + META_SIZE, s1\<lparr>global_base := block\<rparr>)))"
  | (grow) "as \<noteq> []" and "global_base s \<noteq> 0"
      and "find_free_block s 0 (global_base s) sz = Some (Inr (last as, 0))"
      and "malloc s n = bind_r (request_space s (last as) sz) (\<lambda>(block, s1).
            if block = 0 then Some (Inr (0, s1))
            else Some (Inr (block + META_SIZE, s1)))"
  | (reuse) pre blk post b where "as = pre @ blk # post" and "global_base s \<noteq> 0"
      and "hdr s blk = Some b" and "free_f b \<noteq> 0" and "sz \<le> size_f b" and "blk \<noteq> 0"
      and "find_free_block s 0 (global_base s) sz =
        Some (Inr (if pre = [] then 0 else last pre, blk))"
      and "malloc s n =
          bind_r (reuse_block s blk sz) (\<lambda>s1. Some (Inr (blk + META_SIZE, s1)))"
proof -
  from ok have ch: "chain (hdr s) (global_base s) as" by (simp add: heap_ok_def)
  show ?thesis
  proof (cases "global_base s = 0")
    case True
    with ch have e: "as = []" by (cases as) auto
    have m: "malloc s n = bind_r (request_space s 0 sz) (\<lambda>(block, s1).
        if block = 0 then Some (Inr (0, s1))
        else Some (Inr (block + META_SIZE, s1\<lparr>global_base := block\<rparr>)))"
      using n0 True by (simp add: malloc_def Let_def sz cong: if_cong)
    from e True m show ?thesis by (rule first)
  next
    case nz: False
    with ch have ne: "as \<noteq> []" by auto
    have m: "malloc s n = bind_r (find_free_block s 0 (global_base s) sz) (\<lambda>(last_b, block).
        if block = 0 then
          bind_r (request_space s last_b sz) (\<lambda>(block, s1).
            if block = 0 then Some (Inr (0, s1))
            else Some (Inr (block + META_SIZE, s1)))
        else bind_r (reuse_block s block sz) (\<lambda>s1. Some (Inr (block + META_SIZE, s1))))"
      using n0 nz by (simp add: malloc_def Let_def sz cong: if_cong)
    from find_free_block_chain [OF ch, of 0 sz] obtain l blk where
      f: "find_free_block s 0 (global_base s) sz = Some (Inr (l, blk))"
      and c: "if blk = 0 then l = (if as = [] then 0 else last as)
           else \<exists>pre post b. as = pre @ blk # post \<and> l = (if pre = [] then 0 else last pre) \<and>
                  hdr s blk = Some b \<and> free_f b \<noteq> 0 \<and> sz \<le> size_f b"
      by blast
    show ?thesis
    proof (cases "blk = 0")
      case True
      with c ne have l: "l = last as" by simp
      have m': "malloc s n = bind_r (request_space s (last as) sz) (\<lambda>(block, s1).
            if block = 0 then Some (Inr (0, s1))
            else Some (Inr (block + META_SIZE, s1)))"
        unfolding m f using True l by simp
      from ne nz f [unfolded l True] m' show ?thesis by (rule grow)
    next
      case False
      with c obtain pre post and b :: block_meta where
        as: "as = pre @ blk # post" and l: "l = (if pre = [] then 0 else last pre)"
        and b: "hdr s blk = Some b" "free_f b \<noteq> 0" "sz \<le> size_f b"
        by auto
      have m': "malloc s n =
          bind_r (reuse_block s blk sz) (\<lambda>s1. Some (Inr (blk + META_SIZE, s1)))"
        unfolding m f using False by simp
      from as nz b False f [unfolded l] m' show ?thesis by (rule reuse)
    qed
  qed
qed

lemma malloc_total:
  assumes ok: "heap_ok s as"
  shows "malloc s n = Some (Inl Abort) \<or> (\<exists>p s'. malloc s n = Some (Inr (p, s')))"
proof (cases "n = 0")
  case True
  then show ?thesis by (simp add: malloc_def)
next
  case False
  define sz where "sz = (n + 7) AND NOT 7"
  have rs: "request_space s l sz = Some (Inl Abort) \<or>
      (\<exists>blk s1. request_space s l sz = Some (Inr (blk, s1)))"
    if "l = (if as = [] then 0 else last as)" for l
  proof -
    from request_space_no_fault [OF ok that, of sz]
    have nf: "request_space s l sz \<noteq> Some (Inl Fault)" and nn: "request_space s l sz \<noteq> None"
      by blast+
    from nn obtain r where r: "request_space s l sz = Some r" by auto
    show ?thesis
    proof (cases r)
      case (Inl e)
      with r nf show ?thesis by (cases e) auto
    next
      case (Inr x)
      with r show ?thesis by (cases x) auto
    qed
  qed
  from ok False sz_def show ?thesis
  proof (cases rule: malloc_cases)
    case first
    from rs [of 0] first(1) show ?thesis unfolding first(3) by (auto split: if_splits)
  next
    case grow
    from rs [of "last as"] grow(1) show ?thesis unfolding grow(4) by (auto split: if_splits)
  next
    case (reuse pre blk post b)
    from reuse_block_Inr [OF reuse(3), of sz] show ?thesis unfolding reuse(8) by auto
  qed
qed

lemma word_add_cancel_ne: "(a :: addr) \<noteq> c \<Longrightarrow> a + k \<noteq> c + k"
  by simp

lemma malloc_frame:
  assumes m: "malloc s n = Some (Inr (q, s1))" and ok: "heap_ok s as" and n: "small_request n"
  shows "mem s1 = mem s"
    and "q = 0 \<Longrightarrow> as \<noteq> [] \<Longrightarrow> s1 = s"
    and "a \<in> set as \<Longrightarrow> hdr s a = Some b \<Longrightarrow>
         free_f b = 0 \<or> \<not> (n + 7) AND NOT 7 \<le> size_f b \<Longrightarrow>
         a + META_SIZE \<noteq> q \<and>
         (\<exists>b1. hdr s1 a = Some b1 \<and> size_f b1 = size_f b \<and> free_f b1 = free_f b \<and>
            magic b1 = magic b)"
    and "q \<noteq> 0 \<Longrightarrow>
         \<exists>bq. hdr s1 (q - META_SIZE) = Some bq \<and> free_f bq = 0 \<and> allocated_tag bq \<and>
           n \<le> size_f bq"
proof -
  define sz where "sz = (n + 7) AND NOT 7"
  have szs: "unat sz + 40 < 2 ^ 64" unfolding sz_def using n by (rule rounded_small)
  have nsz: "n \<le> sz" unfolding sz_def using n by (rule rounded_ge)
  let ?F = "\<lambda>a b. a + META_SIZE \<noteq> q \<and>
         (\<exists>b1. hdr s1 a = Some b1 \<and> size_f b1 = size_f b \<and> free_f b1 = free_f b \<and>
            magic b1 = magic b)"
  let ?Q = "\<exists>bq. hdr s1 (q - META_SIZE) = Some bq \<and> free_f bq = 0 \<and> allocated_tag bq \<and>
           n \<le> size_f bq"
  have all: "mem s1 = mem s \<and> (q = 0 \<longrightarrow> as \<noteq> [] \<longrightarrow> s1 = s) \<and>
      (\<forall>a b. a \<in> set as \<longrightarrow> hdr s a = Some b \<longrightarrow> free_f b = 0 \<or> \<not> sz \<le> size_f b \<longrightarrow> ?F a b) \<and>
      (q \<noteq> 0 \<longrightarrow> ?Q)"
  proof (cases "n = 0")
    case True
    with m have "q = 0" "s1 = s" by (simp_all add: malloc_def)
    then show ?thesis
      using heap_ok_payload(2) [OF ok] by auto
  next
    case False
    have grow: ?thesis
      if r: "request_space s l sz = Some (Inr (blk, s2))"
        and l: "l = (if as = [] then 0 else last as)"
        and q: "q = (if blk = 0 then 0 else blk + META_SIZE)"
        and h: "hdr s1 = hdr s2" "mem s1 = mem s2" "as \<noteq> [] \<Longrightarrow> s1 = s2"
      for l blk s2
    proof -
      from request_space_frame [OF r] have
        fm: "mem s2 = mem s" and fb: "blk = 0 \<or> blk = brk s"
        and f0: "blk = 0 \<longrightarrow> brk s = 0 \<or> s2 = s"
        and fh: "\<forall>a. a \<noteq> brk s \<longrightarrow>
          rel_option (\<lambda>b b'. size_f b' = size_f b \<and> free_f b' = free_f b \<and> magic b' = magic b)
            (hdr s a) (hdr s2 a)"
        by blast+
      from request_space_ok [OF ok szs l] r have
        p: "blk \<noteq> 0 \<longrightarrow> blk = brk s \<and>
             ordered (hdr s2) (unat (brk s2)) (as @ [blk]) \<and>
             hdr s2 blk =
               Some \<lparr>size_f = sz, next_f = 0, free_f = 0, marked = 1, magic = 0x12345678\<rparr>"
        by (auto split: if_splits)
      have pb: "blk = brk s" "ordered (hdr s2) (unat (brk s2)) (as @ [blk])"
        "hdr s2 blk =
           Some \<lparr>size_f = sz, next_f = 0, free_f = 0, marked = 1, magic = 0x12345678\<rparr>"
        if "blk \<noteq> 0"
      proof -
        from p that have c: "blk = brk s \<and>
             ordered (hdr s2) (unat (brk s2)) (as @ [blk]) \<and>
             hdr s2 blk =
               Some \<lparr>size_f = sz, next_f = 0, free_f = 0, marked = 1, magic = 0x12345678\<rparr>"
          by blast
        from c show "blk = brk s" by (rule conjunct1)
        from c show "ordered (hdr s2) (unat (brk s2)) (as @ [blk])" by blast
        from c show "hdr s2 blk =
               Some \<lparr>size_f = sz, next_f = 0, free_f = 0, marked = 1, magic = 0x12345678\<rparr>"
          by blast
      qed
      have pay: "unat (blk + META_SIZE) = unat blk + 32" if "blk \<noteq> 0"
      proof -
        from pb(2) [OF that] have o: "ordered (hdr s2) (unat (brk s2)) (as @ [blk])" .
        from ordered_below [OF o, of blk]
        obtain bb :: block_meta where "unat blk + 32 + unat (size_f bb) \<le> unat (brk s2)"
          by auto
        with unat_lt_2p64 [of "brk s2"] have "unat blk + 32 < 2 ^ 64" by simp
        then show ?thesis by (simp add: unat_word_ariths META_SIZE_def)
      qed
      have 1: "mem s1 = mem s" using h fm by simp
      have 2: "s1 = s" if "q = 0" "as \<noteq> []"
      proof -
        from that(1) q pay have "blk = 0" by (cases "blk = 0") auto
        moreover have "brk s \<noteq> 0"
        proof -
          from that(2) obtain a0 where "a0 \<in> set as" by (cases as) auto
          from heap_ok_not_brk(2) [OF ok this] show ?thesis by auto
        qed
        ultimately show ?thesis using f0 h(3) [OF that(2)] by simp
      qed
      have 3: "?F a b" if "a \<in> set as" "hdr s a = Some b" for a b
      proof -
        from heap_ok_not_brk(1) [OF ok that(1)] have ne: "a \<noteq> brk s" .
        with fh that(2) obtain b1 where "hdr s2 a = Some b1" "size_f b1 = size_f b"
          "free_f b1 = free_f b" "magic b1 = magic b"
          by (auto simp: option.rel_sel split: option.splits)
        moreover have "a + META_SIZE \<noteq> q"
        proof (cases "blk = 0")
          case True
          with q heap_ok_payload(2) [OF ok that(1)] show ?thesis by simp
        next
          case False
          with fb q ne show ?thesis by simp
        qed
        ultimately show ?thesis using h by auto
      qed
      have 4: ?Q if "q \<noteq> 0"
      proof -
        from that q have nz: "blk \<noteq> 0" and qq: "q = blk + META_SIZE"
          by (auto split: if_splits)
        with pb(3) [OF nz] h nsz show ?thesis by (simp add: allocated_tag_def)
      qed
      from 1 2 3 4 show ?thesis by blast
    qed
    from ok False sz_def show ?thesis
    proof (cases rule: malloc_cases)
      case first
      from m [unfolded first(3)] obtain blk s2 where
        r: "request_space s 0 sz = Some (Inr (blk, s2))"
        and c: "(if blk = 0 then Some (Inr (0, s2))
               else Some (Inr (blk + META_SIZE, s2\<lparr>global_base := blk\<rparr>))) =
            (Some (Inr (q, s1)) :: (addr \<times> heap) result)"
        by (rule bind_r_pairE) blast
      show ?thesis
        by (rule grow [OF r]) (use first(1) c in \<open>auto split: if_splits\<close>)
    next
      case grow': grow
      from m [unfolded grow'(4)] obtain blk s2 where
        r: "request_space s (last as) sz = Some (Inr (blk, s2))"
        and c: "(if blk = 0 then Some (Inr (0, s2))
               else Some (Inr (blk + META_SIZE, s2))) =
            (Some (Inr (q, s1)) :: (addr \<times> heap) result)"
        by (rule bind_r_pairE) blast
      show ?thesis
        by (rule grow [OF r]) (use grow'(1) c in \<open>auto split: if_splits\<close>)
    next
      case (reuse pre blk post b)
      from m [unfolded reuse(8)] have r: "reuse_block s blk sz = Some (Inr s1)"
        and q: "q = blk + META_SIZE"
        by (auto simp: bind_r_eq_Inr)
      have bin: "blk \<in> set as" using reuse(1) by simp
      note fr = reuse_block_frame [OF r reuse(3)]
      have fresh: "blk + META_SIZE + sz \<notin> set as" if "sz + META_SIZE + MIN_SIZE \<le> size_f b"
        using split_point_fresh [OF ok [unfolded reuse(1)] reuse(3) szs that] reuse(1) by simp
      have 3: "?F a b'" if a: "a \<in> set as" "hdr s a = Some b'"
        and c: "free_f b' = 0 \<or> \<not> sz \<le> size_f b'" for a b'
      proof -
        from c a(2) reuse(3,4,5) have ne: "a \<noteq> blk" by auto
        moreover have "a = blk + META_SIZE + sz \<longrightarrow> \<not> sz + META_SIZE + MIN_SIZE \<le> size_f b"
          using fresh a(1) by auto
        ultimately have "hdr s1 a = hdr s a" using fr by blast
        with a(2) ne q show ?thesis by simp
      qed
      have 4: ?Q
      proof -
        have "sz + META_SIZE + MIN_SIZE \<le> size_f b \<longrightarrow> blk + META_SIZE + sz \<noteq> blk"
        proof
          assume "sz + META_SIZE + MIN_SIZE \<le> size_f b"
          from fresh [OF this] bin show "blk + META_SIZE + sz \<noteq> blk" by metis
        qed
        from reuse_block_result [OF r reuse(3,5) this] nsz q show ?thesis
          by (auto simp: allocated_tag_def)
      qed
      have 2: "q \<noteq> 0" using heap_ok_payload(2) [OF ok bin] q by simp
      from fr 2 3 4 show ?thesis by blast
    qed
  qed
  from all show "mem s1 = mem s" by blast
  from all show "q = 0 \<Longrightarrow> as \<noteq> [] \<Longrightarrow> s1 = s" by blast
  from all show "a \<in> set as \<Longrightarrow> hdr s a = Some b \<Longrightarrow>
         free_f b = 0 \<or> \<not> (n + 7) AND NOT 7 \<le> size_f b \<Longrightarrow> ?F a b"
    unfolding sz_def by blast
  from all show "q \<noteq> 0 \<Longrightarrow> ?Q" by blast
qed

end
